theory Spec2Isabelle
  imports Main "HOL-Library.Word"
begin

section \<open>Bytes, strings and errors\<close>

text \<open>
  A Node \<open>Buffer\<close> is a list of bytes. A JavaScript string is modelled as a HOL
  \<open>string\<close>; every string the URI grammar accepts is ASCII.
\<close>

type_synonym byte = "8 word"
type_synonym buffer = "byte list"

text \<open>
  The three kinds of exception \<open>fulfillment.js\<close> raises: the built-in \<open>Error\<close> and
  the two classes it imports from \<open>../errors\<close>. Each carries its message.
\<close>

datatype error = Error string | PrefixError string | ParseError string

text \<open>The argument of \<open>fromUri\<close> is any JavaScript value; only \<open>typeof\<close> is looked at.\<close>

datatype js_value = JSString string | JSOther

text \<open>\<open>pieces[i]\<close>: an index past the end of a JavaScript array reads \<open>undefined\<close>.\<close>

fun at :: "'a list \<Rightarrow> nat \<Rightarrow> 'a option" where
  "at [] i = None"
| "at (x # xs) 0 = Some x"
| "at (x # xs) (Suc i) = at xs i"

text \<open>
  \<open>String.prototype.split(':')\<close>: the pieces between the colons, one more than
  there are colons.
\<close>

fun split_colon :: "string \<Rightarrow> string list" where
  "split_colon [] = [[]]"
| "split_colon (c # cs) =
     (if c = CHR '':'' then [] # split_colon cs
      else (case split_colon cs of
              [] \<Rightarrow> [[c]]
            | p # ps \<Rightarrow> (c # p) # ps))"

section \<open>Hexadecimal numbers\<close>

definition in_range :: "char \<Rightarrow> char \<Rightarrow> char \<Rightarrow> bool" where
  "in_range lo hi c \<longleftrightarrow> (of_char lo :: nat) \<le> of_char c \<and> (of_char c :: nat) \<le> of_char hi"

definition hex_digit :: "nat \<Rightarrow> char" where
  "hex_digit d = char_of (if d < 10 then 48 + d else 87 + d)"

text \<open>
  \<open>Number.prototype.toString(16)\<close> on a non-negative integer: lowercase digits, most
  significant first, no padding; zero is \<open>"0"\<close>.
\<close>

fun toString16 :: "nat \<Rightarrow> string" where
  "toString16 n = (if n < 16 then [hex_digit n] else toString16 (n div 16) @ [hex_digit (n mod 16)])"

definition hex_value :: "char \<Rightarrow> nat option" where
  "hex_value c =
     (if in_range (CHR ''0'') (CHR ''9'') c then Some (of_char c - 48)
      else if in_range (CHR ''a'') (CHR ''f'') c then Some (of_char c - 87)
      else if in_range (CHR ''A'') (CHR ''F'') c then Some (of_char c - 55)
      else None)"

text \<open>
  \<open>parseInt(s, 16)\<close>: the value of the longest prefix of hexadecimal digits, \<open>NaN\<close>
  (here \<open>None\<close>) when there is none or when \<open>s\<close> is \<open>undefined\<close>. The sign, leading
  white space and \<open>0x\<close> that \<open>parseInt\<close> also accepts are left out: \<open>fromUri\<close> calls it
  only on a piece that matched \<open>[1-9a-f][0-9a-f]{0,2}\<close>.
\<close>

fun hex_digits_value :: "nat \<Rightarrow> string \<Rightarrow> nat" where
  "hex_digits_value acc [] = acc"
| "hex_digits_value acc (c # cs) =
     (case hex_value c of
        None \<Rightarrow> acc
      | Some d \<Rightarrow> hex_digits_value (16 * acc + d) cs)"

definition parseInt16 :: "string option \<Rightarrow> nat option" where
  "parseInt16 s =
     (case s of
        None \<Rightarrow> None
      | Some [] \<Rightarrow> None
      | Some (c # cs) \<Rightarrow> (if hex_value c = None then None else Some (hex_digits_value 0 (c # cs))))"

section \<open>Regular expressions\<close>

text \<open>
  The fragment of JavaScript regular expressions that \<open>FULFILLMENT_REGEX\<close> is written
  in. A character class is a list of ranges. The matcher decides whether the whole string
  matches, which is what \<open>exec\<close> decides for a pattern anchored by \<open>^\<close> and \<open>$\<close>
  (without the \<open>m\<close> flag, \<open>$\<close> is the end of the input only).
\<close>

datatype regex =
    Never
  | Empty
  | Chars "(char \<times> char) list"
  | Cat regex regex
  | Or regex regex
  | Many regex

definition in_class :: "(char \<times> char) list \<Rightarrow> char \<Rightarrow> bool" where
  "in_class rs c \<longleftrightarrow> list_ex (\<lambda>(lo, hi). in_range lo hi c) rs"

definition lit :: "char \<Rightarrow> regex" where
  "lit c = Chars [(c, c)]"

fun str :: "string \<Rightarrow> regex" where
  "str [] = Empty"
| "str (c # cs) = Cat (lit c) (str cs)"

definition opt :: "regex \<Rightarrow> regex" where
  "opt r = Or Empty r"

text \<open>\<open>r+\<close> and \<open>r{0,2}\<close>.\<close>

definition many1 :: "regex \<Rightarrow> regex" where
  "many1 r = Cat r (Many r)"

definition upto2 :: "regex \<Rightarrow> regex" where
  "upto2 r = Cat (opt r) (opt r)"

fun nullable :: "regex \<Rightarrow> bool" where
  "nullable Never = False"
| "nullable Empty = True"
| "nullable (Chars rs) = False"
| "nullable (Cat a b) = (nullable a \<and> nullable b)"
| "nullable (Or a b) = (nullable a \<or> nullable b)"
| "nullable (Many a) = True"

fun deriv :: "char \<Rightarrow> regex \<Rightarrow> regex" where
  "deriv c Never = Never"
| "deriv c Empty = Never"
| "deriv c (Chars rs) = (if in_class rs c then Empty else Never)"
| "deriv c (Cat a b) =
     (if nullable a then Or (Cat (deriv c a) b) (deriv c b) else Cat (deriv c a) b)"
| "deriv c (Or a b) = Or (deriv c a) (deriv c b)"
| "deriv c (Many a) = Cat (deriv c a) (Many a)"

fun regex_exec :: "regex \<Rightarrow> string \<Rightarrow> bool" where
  "regex_exec r [] = nullable r"
| "regex_exec r (c # cs) = regex_exec (deriv c r) cs"

text \<open>What it means for a string to match, as a relation.\<close>

inductive matches :: "regex \<Rightarrow> string \<Rightarrow> bool" where
  m_Empty: "matches Empty []"
| m_Chars: "in_class rs c \<Longrightarrow> matches (Chars rs) [c]"
| m_Cat: "matches a u \<Longrightarrow> matches b v \<Longrightarrow> matches (Cat a b) (u @ v)"
| m_OrL: "matches a s \<Longrightarrow> matches (Or a b) s"
| m_OrR: "matches b s \<Longrightarrow> matches (Or a b) s"
| m_Many0: "matches (Many a) []"
| m_Many1: "matches a (c # u) \<Longrightarrow> matches (Many a) v \<Longrightarrow> matches (Many a) (c # u @ v)"

section \<open>URL-safe base64\<close>

text \<open>
  Modelled from the spec: \<open>../util/base64url\<close> is not among the sources. The spec
  gives it as URL-safe base64 without padding, a pure injective function from bytes to
  text with its inverse. The alphabet is \<open>A-Z a-z 0-9 - _\<close>; three bytes make four
  characters, most significant bits first, and the last group is filled with zero bits.
\<close>

fun bits_of_nat :: "nat \<Rightarrow> nat \<Rightarrow> bool list" where
  "bits_of_nat 0 n = []"
| "bits_of_nat (Suc k) n = bits_of_nat k (n div 2) @ [odd n]"

definition nat_of_bits :: "bool list \<Rightarrow> nat" where
  "nat_of_bits bs = foldl (\<lambda>acc b. 2 * acc + (if b then 1 else 0)) 0 bs"

definition bits_of_bytes :: "buffer \<Rightarrow> bool list" where
  "bits_of_bytes bs = concat (map (\<lambda>b. bits_of_nat 8 (unat b)) bs)"

text \<open>
  Groups of \<open>k\<close> bits; \<open>pad\<close> says whether a short last group is filled with zero
  bits (encoding) or dropped (decoding).
\<close>

function groups :: "nat \<Rightarrow> bool \<Rightarrow> bool list \<Rightarrow> bool list list" where
  "groups k pad bs =
     (if k = 0 \<or> bs = [] then []
      else if length bs < k then (if pad then [bs @ replicate (k - length bs) False] else [])
      else take k bs # groups k pad (drop k bs))"
  by pat_completeness auto
termination
  by (relation "measure (\<lambda>(k, pad, bs). length bs)") auto

definition base64url_char :: "nat \<Rightarrow> char" where
  "base64url_char v =
     char_of (if v < 26 then 65 + v
              else if v < 52 then 71 + v
              else if v < 62 then v - 4
              else if v = 62 then 45
              else 95)"

definition base64url_value :: "char \<Rightarrow> nat option" where
  "base64url_value c =
     (if in_range (CHR ''A'') (CHR ''Z'') c then Some (of_char c - 65)
      else if in_range (CHR ''a'') (CHR ''z'') c then Some (of_char c - 71)
      else if in_range (CHR ''0'') (CHR ''9'') c then Some (of_char c + 4)
      else if c = CHR ''-'' then Some 62
      else if c = CHR ''_'' then Some 63
      else None)"

text \<open>
  Modelled from the spec: \<open>base64url.encode\<close>, the bits of the bytes in groups of six,
  each group a character of the alphabet; no padding character is added.
\<close>

definition base64url_encode :: "buffer \<Rightarrow> string" where
  "base64url_encode bs =
     map (\<lambda>g. base64url_char (nat_of_bits g))
       (groups 6 True (bits_of_bytes bs))"

text \<open>
  Modelled from the spec: \<open>base64url.decode\<close>, the six bits of each character in
  groups of eight, each full group a byte. Characters outside the alphabet are skipped;
  \<open>fromUri\<close> passes none.
\<close>

definition base64url_decode :: "string \<Rightarrow> buffer" where
  "base64url_decode s =
     (let bits = concat (map (bits_of_nat 6) (List.map_filter base64url_value s))
      in map (\<lambda>g. of_nat (nat_of_bits g)) (groups 8 False bits))"

section \<open>Writer, Predictor and Reader\<close>

text \<open>
  Modelled from the spec: \<open>./writer\<close>, \<open>./predictor\<close> and \<open>./reader\<close> are not among
  the sources. The spec gives the three one write interface: \<open>writeUInt8/16/32\<close>,
  \<open>writeVarUInt\<close>, \<open>writeOctetString\<close> (length-prefixed raw bytes) and
  \<open>writeVarOctetString\<close> (raw bytes behind a variable-length length). The variable-length
  unsigned integer is the continuation-bit scheme: seven bits of magnitude in each byte,
  the high bit set when more bytes follow. The spec does not fix the order of the groups;
  the least significant group comes first here. Fixed-width integers are written most
  significant byte first. The spec gives the length prefix of \<open>writeOctetString\<close> no
  width; it is one byte here, holding the length modulo 256.
\<close>

text \<open>
  Modelled from the spec: the bytes of a variable-length unsigned integer, the shortest
  encoding of the number.
\<close>

fun varuint :: "nat \<Rightarrow> buffer" where
  "varuint n = (if n < 128 then [of_nat n] else of_nat (128 + n mod 128) # varuint (n div 128))"

text \<open>
  One call on the write interface. A \<open>writePayload\<close> is the list of calls it makes;
  it does not look at what it is writing to, so the same calls reach a Writer and a
  Predictor.
\<close>

datatype write_call =
    WriteUInt8 "8 word"
  | WriteUInt16 "16 word"
  | WriteUInt32 "32 word"
  | WriteVarUInt nat
  | WriteOctetString buffer
  | WriteVarOctetString buffer

text \<open>
  Modelled from the spec: the Writer \<open>appends to an internal growable byte buffer;
  getBuffer() returns the finished bytes\<close>.
\<close>

datatype writer = Writer buffer

definition Writer_new :: writer where
  "Writer_new = Writer []"

fun getBuffer :: "writer \<Rightarrow> buffer" where
  "getBuffer (Writer b) = b"

fun Writer_write :: "writer \<Rightarrow> buffer \<Rightarrow> writer" where
  "Writer_write (Writer b) bytes = Writer (b @ bytes)"

definition Writer_writeUInt8 :: "writer \<Rightarrow> 8 word \<Rightarrow> writer" where
  "Writer_writeUInt8 w v = Writer_write w [v]"

definition Writer_writeUInt16 :: "writer \<Rightarrow> 16 word \<Rightarrow> writer" where
  "Writer_writeUInt16 w v = Writer_write w [ucast (drop_bit 8 v), ucast v]"

definition Writer_writeUInt32 :: "writer \<Rightarrow> 32 word \<Rightarrow> writer" where
  "Writer_writeUInt32 w v =
     Writer_write w [ucast (drop_bit 24 v), ucast (drop_bit 16 v), ucast (drop_bit 8 v), ucast v]"

definition Writer_writeVarUInt :: "writer \<Rightarrow> nat \<Rightarrow> writer" where
  "Writer_writeVarUInt w n = Writer_write w (varuint n)"

definition Writer_writeOctetString :: "writer \<Rightarrow> buffer \<Rightarrow> writer" where
  "Writer_writeOctetString w bytes = Writer_write (Writer_writeUInt8 w (of_nat (length bytes))) bytes"

definition Writer_writeVarOctetString :: "writer \<Rightarrow> buffer \<Rightarrow> writer" where
  "Writer_writeVarOctetString w bytes = Writer_write (Writer_writeVarUInt w (length bytes)) bytes"

fun Writer_call :: "writer \<Rightarrow> write_call \<Rightarrow> writer" where
  "Writer_call w (WriteUInt8 v) = Writer_writeUInt8 w v"
| "Writer_call w (WriteUInt16 v) = Writer_writeUInt16 w v"
| "Writer_call w (WriteUInt32 v) = Writer_writeUInt32 w v"
| "Writer_call w (WriteVarUInt n) = Writer_writeVarUInt w n"
| "Writer_call w (WriteOctetString bytes) = Writer_writeOctetString w bytes"
| "Writer_call w (WriteVarOctetString bytes) = Writer_writeVarOctetString w bytes"

text \<open>
  Modelled from the spec: the Predictor \<open>implements the identical write interface but
  discards data, only incrementing an internal counter by the number of bytes each
  operation would write; getSize() returns the accumulated count\<close>. The count for a
  variable-length integer is computed from the number, not from its bytes.
\<close>

datatype predictor = Predictor nat

definition Predictor_new :: predictor where
  "Predictor_new = Predictor 0"

fun getSize :: "predictor \<Rightarrow> nat" where
  "getSize (Predictor n) = n"

fun Predictor_skip :: "predictor \<Rightarrow> nat \<Rightarrow> predictor" where
  "Predictor_skip (Predictor n) k = Predictor (n + k)"

fun varuint_size :: "nat \<Rightarrow> nat" where
  "varuint_size n = (if n < 128 then 1 else 1 + varuint_size (n div 128))"

fun Predictor_call :: "predictor \<Rightarrow> write_call \<Rightarrow> predictor" where
  "Predictor_call p (WriteUInt8 v) = Predictor_skip p 1"
| "Predictor_call p (WriteUInt16 v) = Predictor_skip p 2"
| "Predictor_call p (WriteUInt32 v) = Predictor_skip p 4"
| "Predictor_call p (WriteVarUInt n) = Predictor_skip p (varuint_size n)"
| "Predictor_call p (WriteOctetString bytes) = Predictor_skip (Predictor_skip p 1) (length bytes)"
| "Predictor_call p (WriteVarOctetString bytes) =
     Predictor_skip (Predictor_skip p (varuint_size (length bytes))) (length bytes)"

text \<open>
  Modelled from the spec: the Reader \<open>consumes bytes from a fixed buffer with a
  cursor\<close>; each read \<open>fails with a ParseError if insufficient bytes remain\<close>, and
  \<open>readVarUInt\<close> also when \<open>the encoding uses more bytes than necessary for the
  value\<close>. A Reader is modelled by the bytes from its cursor on, so \<open>Reader.from\<close> of a
  buffer is the buffer and of a Reader the Reader. The spec gives the errors no messages;
  the ones here are placeholders.
\<close>

type_synonym reader = buffer

definition Reader_from :: "buffer \<Rightarrow> reader" where
  "Reader_from b = b"

fun readUInt8 :: "reader \<Rightarrow> error + byte \<times> reader" where
  "readUInt8 [] = Inl (ParseError ''Tried to read past the end of the buffer'')"
| "readUInt8 (b # r) = Inr (b, r)"

fun readVarUInt :: "reader \<Rightarrow> error + nat \<times> reader" where
  "readVarUInt [] = Inl (ParseError ''Tried to read past the end of the buffer'')"
| "readVarUInt (b # r) =
     (if unat b < 128 then Inr (unat b, r)
      else (case readVarUInt r of
              Inl e \<Rightarrow> Inl e
            | Inr (high, r') \<Rightarrow>
                (if high = 0 then Inl (ParseError ''Variable-length integer is not canonical'')
                 else Inr (unat b - 128 + 128 * high, r'))))"

definition readOctets :: "reader \<Rightarrow> nat \<Rightarrow> error + buffer \<times> reader" where
  "readOctets r n =
     (if length r < n then Inl (ParseError ''Tried to read past the end of the buffer'')
      else Inr (take n r, drop n r))"

definition readVarOctetString :: "reader \<Rightarrow> error + buffer \<times> reader" where
  "readVarOctetString r =
     (case readVarUInt r of
        Inl e \<Rightarrow> Inl e
      | Inr (n, r') \<Rightarrow> readOctets r' n)"

section \<open>Condition\<close>

text \<open>
  Modelled from the spec: \<open>./condition\<close> is not among the sources. The spec gives a
  Condition three fields, the type bitmask, the hash digest and the maximal fulfillment
  length; a new Condition has none of them set.
\<close>

record condition =
  bitmask :: "nat option"
  hash :: "buffer option"
  maxFulfillmentLength :: "nat option"

definition Condition_new :: condition where
  "Condition_new = \<lparr>bitmask = None, hash = None, maxFulfillmentLength = None\<rparr>"

definition setBitmask :: "condition \<Rightarrow> nat \<Rightarrow> condition" where
  "setBitmask c b = c\<lparr>bitmask := Some b\<rparr>"

definition setHash :: "condition \<Rightarrow> buffer \<Rightarrow> condition" where
  "setHash c h = c\<lparr>hash := Some h\<rparr>"

definition setMaxFulfillmentLength :: "condition \<Rightarrow> nat \<Rightarrow> condition" where
  "setMaxFulfillmentLength c n = c\<lparr>maxFulfillmentLength := Some n\<rparr>"

section \<open>Fulfillment types and their registry\<close>

text \<open>
  A subclass of \<open>Fulfillment\<close>: its static \<open>TYPE_BIT\<close>, its constructor and the methods
  it defines. A method runs on the fields of an instance and returns its result, or the
  exception it throws, together with the fields as it leaves them. \<open>parsePayload\<close> also
  returns the Reader as it leaves it; when it throws, \<open>fromUri\<close> and \<open>fromBinary\<close> give
  the instance to nobody. \<open>writePayload\<close> returns the calls it makes on the writer it
  is given. A method the subclass may leave to the base class is \<open>None\<close> when it does.
\<close>

type_synonym ('a, 'p) member = "'p \<Rightarrow> (error + 'a) \<times> 'p"

record 'p fulfillment_class =
  TYPE_BIT :: nat
  new :: 'p
  parsePayload :: "'p \<Rightarrow> reader \<Rightarrow> error + 'p \<times> reader"
  writePayload :: "(write_call list, 'p) member"
  generateHash_override :: "(buffer, 'p) member option"
  getBitmask_override :: "(nat, 'p) member option"
  calculateMaxFulfillmentLength_override :: "(nat, 'p) member option"

text \<open>An instance: the class that constructed it and its own properties.\<close>

record 'p fulfillment =
  constructor :: "'p fulfillment_class"
  props :: 'p

text \<open>
  Modelled from the spec: \<open>./bitmask-registry\<close> is not among the sources. The spec
  gives it as a table from type bits to implementations whose lookup \<open>fails with
  ParseError ("no submodule registered for type bit") when the bit has no registrant\<close>.
  The type bit \<open>fromUri\<close> passes is what \<open>parseInt\<close> returned; \<open>NaN\<close> has no registrant.
\<close>

type_synonym 'p registry = "nat \<rightharpoonup> 'p fulfillment_class"

definition getClassFromTypeBit :: "'p registry \<Rightarrow> nat option \<Rightarrow> error + 'p fulfillment_class" where
  "getClassFromTypeBit registry typeBit =
     (case typeBit of
        None \<Rightarrow> Inl (ParseError ''No submodule registered for type bit'')
      | Some b \<Rightarrow>
          (case registry b of
             None \<Rightarrow> Inl (ParseError ''No submodule registered for type bit'')
           | Some cls \<Rightarrow> Inr cls))"

section \<open>Fulfillment\<close>

text \<open>\<^verbatim>\<open>const FULFILLMENT_REGEX = /^cf:1:[1-9a-f][0-9a-f]{0,2}:[a-zA-Z0-9_-]+$/\<close>\<close>

definition FULFILLMENT_REGEX :: regex where
  "FULFILLMENT_REGEX =
     Cat (str ''cf:1:'')
    (Cat (Chars [(CHR ''1'', CHR ''9''), (CHR ''a'', CHR ''f'')])
    (Cat (upto2 (Chars [(CHR ''0'', CHR ''9''), (CHR ''a'', CHR ''f'')]))
    (Cat (lit (CHR '':''))
         (many1 (Chars [(CHR ''a'', CHR ''z''), (CHR ''A'', CHR ''Z''), (CHR ''0'', CHR ''9''),
                        (CHR ''_'', CHR ''_''), (CHR ''-'', CHR ''-'')])))))"

text \<open>
  Calling a method of the subclass on \<open>this\<close>: the method's result, and \<open>this\<close> with
  the properties as the method left them.
\<close>

definition invoke :: "('a, 'p) member \<Rightarrow> 'p fulfillment \<Rightarrow> (error + 'a) \<times> 'p fulfillment" where
  "invoke m this = (case m (props this) of (r, p) \<Rightarrow> (r, this\<lparr>props := p\<rparr>))"

text \<open>
  \<open>this.writePayload(w)\<close>, where \<open>w\<close> is a Writer or a Predictor and \<open>call\<close> is how
  \<open>w\<close> carries out one call of the write interface.
\<close>

definition invoke_writePayload ::
  "('w \<Rightarrow> write_call \<Rightarrow> 'w) \<Rightarrow> 'p fulfillment \<Rightarrow> 'w \<Rightarrow> (error + 'w) \<times> 'p fulfillment" where
  "invoke_writePayload call this w =
     (case invoke (writePayload (constructor this)) this of
        (Inl e, this') \<Rightarrow> (Inl e, this')
      | (Inr calls, this') \<Rightarrow> (Inr (foldl call w calls), this'))"

text \<open>
  \<open>static fromUri (serializedFulfillment)\<close>. The registry is the module
  \<open>BitmaskRegistry\<close> as it stands when the call is made. \<open>pieces[3]\<close> is a string
  whenever the pattern has matched; the branch for \<open>undefined\<close> is never taken.
\<close>

definition fromUri :: "'p registry \<Rightarrow> js_value \<Rightarrow> error + 'p fulfillment" where
  \<open>fromUri registry serializedFulfillment =
     (case serializedFulfillment of
        JSOther \<Rightarrow> Inl (Error ''Serialized fulfillment must be a string'')
      | JSString s \<Rightarrow>
          (let pieces = split_colon s in
           if at pieces 0 \<noteq> Some ''cf'' then
             Inl (PrefixError ''Serialized fulfillment must start with "cf:"'')
           else if at pieces 1 \<noteq> Some ''1'' then
             Inl (PrefixError ''Fulfillment must be version 1'')
           else if \<not> regex_exec FULFILLMENT_REGEX s then
             Inl (ParseError ''Invalid fulfillment format'')
           else
             (let typeBit = parseInt16 (at pieces 2) in
              case at pieces 3 of
                None \<Rightarrow> Inl (Error ''base64url.decode of undefined'')
              | Some text \<Rightarrow>
                  (let payload = Reader_from (base64url_decode text) in
                   case getClassFromTypeBit registry typeBit of
                     Inl e \<Rightarrow> Inl e
                   | Inr ConditionClass \<Rightarrow>
                       (case parsePayload ConditionClass (new ConditionClass) payload of
                          Inl e \<Rightarrow> Inl e
                        | Inr (p, payload') \<Rightarrow>
                            Inr \<lparr>constructor = ConditionClass, props = p\<rparr>)))))\<close>

text \<open>
  \<open>static fromBinary (reader)\<close>. The Reader is returned as the parse leaves it: the
  caller holds it and reads on from there.
\<close>

definition fromBinary :: "'p registry \<Rightarrow> reader \<Rightarrow> error + 'p fulfillment \<times> reader" where
  "fromBinary registry reader0 =
     (let reader = Reader_from reader0 in
      case readVarUInt reader of
        Inl e \<Rightarrow> Inl e
      | Inr (typeBit, reader') \<Rightarrow>
          (case getClassFromTypeBit registry (Some typeBit) of
             Inl e \<Rightarrow> Inl e
           | Inr ConditionClass \<Rightarrow>
               (case parsePayload ConditionClass (new ConditionClass) reader' of
                  Inl e \<Rightarrow> Inl e
                | Inr (p, reader'') \<Rightarrow>
                    Inr (\<lparr>constructor = ConditionClass, props = p\<rparr>, reader''))))"

definition getTypeBit :: "'p fulfillment \<Rightarrow> nat" where
  "getTypeBit this = TYPE_BIT (constructor this)"

text \<open>
  The methods of the base class keep their names. \<open>this.getBitmask()\<close>,
  \<open>this.generateHash()\<close> and \<open>this.calculateMaxFulfillmentLength()\<close> are virtual calls:
  they run the subclass's method where it has one and the base class's otherwise.
  \<open>getTypeBit\<close> and the three serializers are taken as no subclass's to override.
\<close>

definition getBitmask :: "'p fulfillment \<Rightarrow> (error + nat) \<times> 'p fulfillment" where
  "getBitmask this = (Inr (TYPE_BIT (constructor this)), this)"

definition generateHash :: "'p fulfillment \<Rightarrow> (error + buffer) \<times> 'p fulfillment" where
  "generateHash this = (Inl (Error ''This method should be implemented by a subclass''), this)"

definition calculateMaxFulfillmentLength :: "'p fulfillment \<Rightarrow> (error + nat) \<times> 'p fulfillment" where
  "calculateMaxFulfillmentLength this =
     (let predictor = Predictor_new in
      case invoke_writePayload Predictor_call this predictor of
        (Inl e, this') \<Rightarrow> (Inl e, this')
      | (Inr predictor', this') \<Rightarrow> (Inr (getSize predictor'), this'))"

definition virtual ::
  "('p fulfillment_class \<Rightarrow> ('a, 'p) member option) \<Rightarrow>
   ('p fulfillment \<Rightarrow> (error + 'a) \<times> 'p fulfillment) \<Rightarrow>
   'p fulfillment \<Rightarrow> (error + 'a) \<times> 'p fulfillment" where
  "virtual override base this =
     (case override (constructor this) of
        None \<Rightarrow> base this
      | Some m \<Rightarrow> invoke m this)"

definition getCondition :: "'p fulfillment \<Rightarrow> (error + condition) \<times> 'p fulfillment" where
  "getCondition this =
     (let condition = Condition_new in
      case virtual getBitmask_override getBitmask this of
        (Inl e, this1) \<Rightarrow> (Inl e, this1)
      | (Inr b, this1) \<Rightarrow>
          (let condition = setBitmask condition b in
           case virtual generateHash_override generateHash this1 of
             (Inl e, this2) \<Rightarrow> (Inl e, this2)
           | (Inr h, this2) \<Rightarrow>
               (let condition = setHash condition h in
                case virtual calculateMaxFulfillmentLength_override
                       calculateMaxFulfillmentLength this2 of
                  (Inl e, this3) \<Rightarrow> (Inl e, this3)
                | (Inr n, this3) \<Rightarrow> (Inr (setMaxFulfillmentLength condition n), this3))))"

definition serializePayload :: "'p fulfillment \<Rightarrow> (error + buffer) \<times> 'p fulfillment" where
  "serializePayload this =
     (let writer = Writer_new in
      case invoke_writePayload Writer_call this writer of
        (Inl e, this') \<Rightarrow> (Inl e, this')
      | (Inr writer', this') \<Rightarrow> (Inr (getBuffer writer'), this'))"

definition serializeUri :: "'p fulfillment \<Rightarrow> (error + string) \<times> 'p fulfillment" where
  "serializeUri this =
     (let typeBit = toString16 (getTypeBit this) in
      case serializePayload this of
        (Inl e, this') \<Rightarrow> (Inl e, this')
      | (Inr payload, this') \<Rightarrow>
          (Inr (''cf:1:'' @ typeBit @ '':'' @ base64url_encode payload), this'))"

definition serializeBinary :: "'p fulfillment \<Rightarrow> (error + buffer) \<times> 'p fulfillment" where
  "serializeBinary this =
     (let writer = Writer_new;
          writer = Writer_writeVarUInt writer (getTypeBit this) in
      case invoke_writePayload Writer_call this writer of
        (Inl e, this') \<Rightarrow> (Inl e, this')
      | (Inr writer', this') \<Rightarrow> (Inr (getBuffer writer'), this'))"

definition validate :: "'p fulfillment \<Rightarrow> (error + bool) \<times> 'p fulfillment" where
  "validate this = (Inl (Error ''Not implemented''), this)"

section \<open>The properties, in the words of the specification\<close>

text \<open>
  The URI grammar: \<open>cf:1:<typeBitHex>:<payloadBase64Url>\<close>, where the type bit is one to
  three lowercase hexadecimal digits, the first not \<open>0\<close>, and the payload is one or more
  characters of the URL-safe base64 alphabet.
\<close>

definition lower_hex :: "char \<Rightarrow> bool" where
  "lower_hex c \<longleftrightarrow> in_range (CHR ''0'') (CHR ''9'') c \<or> in_range (CHR ''a'') (CHR ''f'') c"

definition base64url_alphabet :: "char \<Rightarrow> bool" where
  "base64url_alphabet c \<longleftrightarrow>
     in_range (CHR ''A'') (CHR ''Z'') c \<or> in_range (CHR ''a'') (CHR ''z'') c \<or>
     in_range (CHR ''0'') (CHR ''9'') c \<or> c = CHR ''-'' \<or> c = CHR ''_''"

definition uri_grammar :: "string \<Rightarrow> bool" where
  "uri_grammar s \<longleftrightarrow>
     (case split_colon s of
        [scheme, version, typeBitHex, payloadBase64Url] \<Rightarrow>
          scheme = ''cf'' \<and> version = ''1'' \<and>
          1 \<le> length typeBitHex \<and> length typeBitHex \<le> 3 \<and>
          list_all lower_hex typeBitHex \<and> hd typeBitHex \<noteq> CHR ''0'' \<and>
          payloadBase64Url \<noteq> [] \<and> list_all base64url_alphabet payloadBase64Url
      | _ \<Rightarrow> False)"

text \<open>
  A string is the unpadded lowercase hexadecimal rendering of \<open>n\<close>: lowercase
  hexadecimal digits of value \<open>n\<close>, with no leading zero except for zero itself.
\<close>

definition renders_hex :: "string \<Rightarrow> nat \<Rightarrow> bool" where
  "renders_hex s n \<longleftrightarrow>
     s \<noteq> [] \<and> list_all lower_hex s \<and> (hd s = CHR ''0'' \<longrightarrow> s = ''0'') \<and>
     hex_digits_value 0 s = n"

text \<open>
  What the base class asks of a subclass. A payload is valid for a class when
  \<open>writePayload\<close> writes it without throwing and \<open>parsePayload\<close>, on a fresh instance
  and the bytes written, yields an instance that writes the same bytes.
\<close>

definition payload_bytes :: "'p fulfillment_class \<Rightarrow> 'p \<Rightarrow> buffer option" where
  "payload_bytes cls p =
     (case fst (writePayload cls p) of
        Inl e \<Rightarrow> None
      | Inr calls \<Rightarrow> Some (getBuffer (foldl Writer_call Writer_new calls)))"

definition valid_payload :: "'p fulfillment_class \<Rightarrow> 'p \<Rightarrow> bool" where
  "valid_payload cls p \<longleftrightarrow>
     (case payload_bytes cls p of
        None \<Rightarrow> False
      | Some bytes \<Rightarrow>
          (case parsePayload cls (new cls) (Reader_from bytes) of
             Inl e \<Rightarrow> False
           | Inr (p', rest) \<Rightarrow> payload_bytes cls p' = Some bytes))"

text \<open>
  The methods of the subclass are read-only at \<open>p\<close>: each one it defines leaves
  properties \<open>p\<close> as they are.
\<close>

definition keeps :: "('a, 'p) member option \<Rightarrow> 'p \<Rightarrow> bool" where
  "keeps m p \<longleftrightarrow> (case m of None \<Rightarrow> True | Some f \<Rightarrow> snd (f p) = p)"

definition read_only :: "'p fulfillment_class \<Rightarrow> 'p \<Rightarrow> bool" where
  "read_only cls p \<longleftrightarrow>
     snd (writePayload cls p) = p \<and>
     keeps (generateHash_override cls) p \<and>
     keeps (getBitmask_override cls) p \<and>
     keeps (calculateMaxFulfillmentLength_override cls) p"

text \<open>A string starts with a prefix.\<close>

definition startsWith :: "string \<Rightarrow> string \<Rightarrow> bool" where
  "startsWith s p \<longleftrightarrow> take (length p) s = p"

text \<open>
  The operations of the frame property, each as a caller runs it on an instance:
  \<open>f.calculateMaxFulfillmentLength()\<close> runs the method of the subclass where it has
  one. A sequence of them is run from left to right.
\<close>

datatype operation =
    SerializeBinary
  | SerializePayload
  | SerializeUri
  | CalculateMaxFulfillmentLength
  | GetCondition

fun perform :: "'p fulfillment \<Rightarrow> operation \<Rightarrow> 'p fulfillment" where
  "perform this SerializeBinary = snd (serializeBinary this)"
| "perform this SerializePayload = snd (serializePayload this)"
| "perform this SerializeUri = snd (serializeUri this)"
| "perform this CalculateMaxFulfillmentLength =
     snd (virtual calculateMaxFulfillmentLength_override calculateMaxFulfillmentLength this)"
| "perform this GetCondition = snd (getCondition this)"

section \<open>Example fulfillment types\<close>

text \<open>
  Small subclasses to run the base class on. \<open>Preimage\<close> holds a byte string
  and writes it as one variable-length octet string; its hash is a one-byte checksum.
  \<open>Nothing\<close> has no payload at all. \<open>Wide\<close> is \<open>Preimage\<close> under the thirteenth type
  bit. \<open>Counting\<close> counts in its properties how often it has been written.
  The last four are \<open>Preimage\<close> with one method that breaks what the base class
  relies on: \<open>Liar\<close> overrides \<open>calculateMaxFulfillmentLength\<close> and returns 0;
  the \<open>generateHash\<close> of \<open>Shrinking\<close> and the \<open>getBitmask\<close> of \<open>Forgetting\<close> empty
  the byte string; the \<open>getBitmask\<close> of \<open>Masking\<close> puts a zero byte in front of it.
\<close>

definition checksum :: "buffer \<Rightarrow> buffer" where
  "checksum bytes = [foldl (+) 0 bytes]"

definition Preimage :: "buffer fulfillment_class" where
  "Preimage =
     \<lparr>TYPE_BIT = 1,
      new = [],
      parsePayload = (\<lambda>p reader. readVarOctetString reader),
      writePayload = (\<lambda>p. (Inr [WriteVarOctetString p], p)),
      generateHash_override = Some (\<lambda>p. (Inr (checksum p), p)),
      getBitmask_override = None,
      calculateMaxFulfillmentLength_override = None\<rparr>"

definition Nothing :: "buffer fulfillment_class" where
  "Nothing =
     \<lparr>TYPE_BIT = 2,
      new = [],
      parsePayload = (\<lambda>p reader. Inr (p, reader)),
      writePayload = (\<lambda>p. (Inr [], p)),
      generateHash_override = Some (\<lambda>p. (Inr [], p)),
      getBitmask_override = None,
      calculateMaxFulfillmentLength_override = None\<rparr>"

definition Wide :: "buffer fulfillment_class" where
  "Wide = Preimage\<lparr>TYPE_BIT := 4096\<rparr>"

definition Counting :: "buffer fulfillment_class" where
  "Counting =
     \<lparr>TYPE_BIT = 4,
      new = [],
      parsePayload = (\<lambda>p reader. Inr (p, reader)),
      writePayload = (\<lambda>p. (Inr [WriteUInt8 (of_nat (length p))], 0 # p)),
      generateHash_override = None,
      getBitmask_override = None,
      calculateMaxFulfillmentLength_override = None\<rparr>"




definition Masking :: "buffer fulfillment_class" where
  "Masking =
     Preimage\<lparr>TYPE_BIT := 64,
       getBitmask_override := Some (\<lambda>p. (Inr 64, 0 # p))\<rparr>"

definition example_registry :: "buffer registry" where
  "example_registry = [1 \<mapsto> Preimage, 2 \<mapsto> Nothing, 4096 \<mapsto> Wide]"

section \<open>Lemmas\<close>

declare varuint.simps [simp del] varuint_size.simps [simp del] toString16.simps [simp del]
  groups.simps [simp del]

subsection \<open>Variable-length integers, Writer and Predictor\<close>

lemma unat_of_nat_byte: "n < 256 \<Longrightarrow> unat (of_nat n :: byte) = n"
  by (simp add: unat_of_nat)

lemma readVarUInt_varuint: "readVarUInt (varuint n @ rest) = Inr (n, rest)"
proof (induction n rule: varuint.induct)
  case (1 n)
  show ?case
  proof (cases "n < 128")
    case True
    then show ?thesis
      by (subst varuint.simps) (simp add: unat_of_nat_byte)
  next
    case False
    then have high: "n div 128 \<noteq> 0" by simp
    have low: "unat (of_nat (128 + n mod 128) :: byte) = 128 + n mod 128"
      by (rule unat_of_nat_byte) simp
    from False 1 have "readVarUInt (varuint (n div 128) @ rest) = Inr (n div 128, rest)"
      by simp
    with False high low show ?thesis
      by (subst varuint.simps) simp
  qed
qed

lemma length_varuint: "length (varuint n) = varuint_size n"
  by (induction n rule: varuint.induct) (subst varuint.simps, subst varuint_size.simps, simp)

lemma Writer_call_append:
  "getBuffer (Writer_call (Writer b) c) = b @ getBuffer (Writer_call Writer_new c)"
  by (cases c)
     (simp_all add: Writer_new_def Writer_writeUInt8_def Writer_writeUInt16_def Writer_writeUInt32_def
        Writer_writeVarUInt_def Writer_writeOctetString_def Writer_writeVarOctetString_def)

lemma Writer_calls_append:
  "getBuffer (foldl Writer_call (Writer b) calls) = b @ getBuffer (foldl Writer_call Writer_new calls)"
proof (induction calls arbitrary: b rule: rev_induct)
  case Nil
  show ?case by (simp add: Writer_new_def)
next
  case (snoc c calls)
  obtain b1 where b1: "foldl Writer_call (Writer b) calls = Writer b1" by (cases "foldl Writer_call (Writer b) calls")
  obtain b2 where b2: "foldl Writer_call Writer_new calls = Writer b2" by (cases "foldl Writer_call Writer_new calls")
  from snoc [of b] b1 b2 have "b1 = b @ b2" by simp
  then show ?case
    using b1 b2 Writer_call_append [of b1 c] Writer_call_append [of b2 c] by simp
qed

lemma Predictor_call_size:
  "getSize (Predictor_call (Predictor k) c) = k + length (getBuffer (Writer_call Writer_new c))"
  by (cases c)
     (simp_all add: Writer_new_def Writer_writeUInt8_def Writer_writeUInt16_def Writer_writeUInt32_def
        Writer_writeVarUInt_def Writer_writeOctetString_def Writer_writeVarOctetString_def length_varuint)

lemma Predictor_calls_size:
  "getSize (foldl Predictor_call (Predictor k) calls) =
     k + length (getBuffer (foldl Writer_call Writer_new calls))"
proof (induction calls arbitrary: k rule: rev_induct)
  case Nil
  show ?case by (simp add: Writer_new_def)
next
  case (snoc c calls)
  obtain k1 where k1: "foldl Predictor_call (Predictor k) calls = Predictor k1" by (cases "foldl Predictor_call (Predictor k) calls")
  obtain b2 where b2: "foldl Writer_call Writer_new calls = Writer b2" by (cases "foldl Writer_call Writer_new calls")
  from snoc [of k] k1 b2 have "k1 = k + length b2" by simp
  then show ?case
    using k1 b2 Predictor_call_size [of k1 c] Writer_call_append [of b2 c] by simp
qed

subsection \<open>The matcher decides the matching relation\<close>

inductive_cases matches_NeverE: "matches Never s"
inductive_cases matches_EmptyE: "matches Empty s"
inductive_cases matches_CharsE: "matches (Chars rs) s"
inductive_cases matches_CatE: "matches (Cat a b) s"
inductive_cases matches_OrE: "matches (Or a b) s"
inductive_cases matches_ManyE: "matches (Many a) s"

lemma matches_Nil_nullable: "matches r s \<Longrightarrow> s = [] \<Longrightarrow> nullable r"
  by (induction rule: matches.induct) simp_all

lemma nullable_matches_Nil: "nullable r \<Longrightarrow> matches r []"
proof (induction r)
  case (Cat a b)
  then have "matches (Cat a b) ([] @ [])" by (intro m_Cat) simp_all
  then show ?case by simp
qed (auto intro: matches.intros)

lemma nullable_iff: "nullable r \<longleftrightarrow> matches r []"
  using matches_Nil_nullable nullable_matches_Nil by blast

lemma matches_Cat_iff: "matches (Cat a b) s \<longleftrightarrow> (\<exists>u v. s = u @ v \<and> matches a u \<and> matches b v)"
  by (blast elim: matches_CatE intro: m_Cat)

lemma matches_Or_iff: "matches (Or a b) s \<longleftrightarrow> matches a s \<or> matches b s"
  by (auto elim: matches_OrE intro: m_OrL m_OrR)

lemma matches_Empty_iff: "matches Empty s \<longleftrightarrow> s = []"
  by (auto elim: matches_EmptyE intro: m_Empty)

lemma matches_Never_iff: "matches Never s \<longleftrightarrow> False"
  by (auto elim: matches_NeverE)

lemma matches_Chars_iff: "matches (Chars rs) s \<longleftrightarrow> (\<exists>c. s = [c] \<and> in_class rs c)"
  by (auto elim: matches_CharsE intro: m_Chars)

lemma matches_deriv: "matches (deriv c r) s \<Longrightarrow> matches r (c # s)"
proof (induction r arbitrary: s)
  case (Chars rs)
  then show ?case
    by (auto simp: matches_Empty_iff matches_Never_iff intro: m_Chars split: if_splits)
next
  case (Cat a b)
  show ?case
  proof (cases "nullable a")
    case True
    with Cat.prems consider
      (left) u v where "s = u @ v" "matches (deriv c a) u" "matches b v"
      | (right) "matches (deriv c b) s"
      by (auto simp: matches_Or_iff matches_Cat_iff)
    then show ?thesis
    proof cases
      case left
      then have "matches (Cat a b) ((c # u) @ v)" using Cat.IH(1) by (intro m_Cat) simp_all
      with left show ?thesis by simp
    next
      case right
      from True have "matches a []" by (rule nullable_matches_Nil)
      then have "matches (Cat a b) ([] @ c # s)" using right Cat.IH(2) by (intro m_Cat) simp_all
      then show ?thesis by simp
    qed
  next
    case False
    with Cat.prems obtain u v where "s = u @ v" "matches (deriv c a) u" "matches b v"
      by (auto simp: matches_Cat_iff)
    then have "matches (Cat a b) ((c # u) @ v)" using Cat.IH(1) by (intro m_Cat) simp_all
    with \<open>s = u @ v\<close> show ?thesis by simp
  qed
next
  case (Or a b)
  then show ?case by (auto simp: matches_Or_iff)
next
  case (Many a)
  then obtain u v where "s = u @ v" "matches (deriv c a) u" "matches (Many a) v"
    by (auto simp: matches_Cat_iff)
  then show ?case using Many.IH by (auto intro: m_Many1)
qed (simp_all add: matches_Never_iff)

lemma deriv_matches: "matches r t \<Longrightarrow> t = c # s \<Longrightarrow> matches (deriv c r) s"
proof (induction arbitrary: s rule: matches.induct)
  case (m_Chars rs c')
  then show ?case by (simp add: matches_Empty_iff)
next
  case (m_Cat a u b v)
  show ?case
  proof (cases u)
    case Nil
    with m_Cat have "nullable a" "matches (deriv c b) s"
      by (simp_all add: matches_Nil_nullable)
    then show ?thesis by (simp add: matches_Or_iff)
  next
    case (Cons x u')
    with m_Cat have "matches (deriv c a) u'" "s = u' @ v" by simp_all
    with m_Cat.hyps(2) have "matches (Cat (deriv c a) b) s" by (auto intro: matches.m_Cat)
    then show ?thesis by (simp add: matches_Or_iff)
  qed
next
  case (m_Many1 a c' u v)
  then have "matches (deriv c a) u" "s = u @ v" by simp_all
  with m_Many1.hyps(2) show ?case by (auto intro: matches.m_Cat)
qed (simp_all add: matches_Or_iff)

lemma regex_exec_iff: "regex_exec r s \<longleftrightarrow> matches r s"
proof (induction s arbitrary: r)
  case Nil
  show ?case by (simp add: nullable_iff)
next
  case (Cons c s)
  then show ?case using matches_deriv deriv_matches by auto
qed

lemma in_range_same [simp]: "in_range c c d \<longleftrightarrow> d = c"
  by (auto simp: in_range_def)

lemma matches_lit_iff: "matches (lit c) s \<longleftrightarrow> s = [c]"
  by (auto simp: lit_def matches_Chars_iff in_class_def)

lemma matches_str_iff: "matches (str w) s \<longleftrightarrow> s = w"
  by (induction w arbitrary: s) (auto simp: matches_Empty_iff matches_Cat_iff matches_lit_iff)

lemma matches_opt_iff: "matches (opt r) s \<longleftrightarrow> s = [] \<or> matches r s"
  by (simp add: opt_def matches_Or_iff matches_Empty_iff)

lemma matches_Many_Chars: "matches r s \<Longrightarrow> r = Many (Chars rs) \<Longrightarrow> list_all (in_class rs) s"
  by (induction rule: matches.induct) (auto simp: matches_Chars_iff)

lemma list_all_matches_Many: "list_all (in_class rs) s \<Longrightarrow> matches (Many (Chars rs)) s"
proof (induction s)
  case Nil
  show ?case by (rule m_Many0)
next
  case (Cons c s)
  then have "matches (Many (Chars rs)) (c # [] @ s)"
    by (intro m_Many1 m_Chars) simp_all
  then show ?case by simp
qed

lemma matches_Many_Chars_iff: "matches (Many (Chars rs)) s \<longleftrightarrow> list_all (in_class rs) s"
  using matches_Many_Chars list_all_matches_Many by blast

lemma matches_many1_iff: "matches (many1 (Chars rs)) s \<longleftrightarrow> s \<noteq> [] \<and> list_all (in_class rs) s"
proof (cases s)
  case Nil
  then show ?thesis by (simp add: many1_def matches_Cat_iff matches_Chars_iff)
next
  case (Cons c t)
  have "(\<exists>u v. c # t = u @ v \<and> (\<exists>d. u = [d] \<and> in_class rs d) \<and> list_all (in_class rs) v)
          \<longleftrightarrow> in_class rs c \<and> list_all (in_class rs) t"
  proof
    assume "\<exists>u v. c # t = u @ v \<and> (\<exists>d. u = [d] \<and> in_class rs d) \<and> list_all (in_class rs) v"
    then show "in_class rs c \<and> list_all (in_class rs) t" by auto
  next
    assume "in_class rs c \<and> list_all (in_class rs) t"
    then have "c # t = [c] @ t \<and> (\<exists>d. [c] = [d] \<and> in_class rs d) \<and> list_all (in_class rs) t" by simp
    then show "\<exists>u v. c # t = u @ v \<and> (\<exists>d. u = [d] \<and> in_class rs d) \<and> list_all (in_class rs) v" by blast
  qed
  with Cons show ?thesis
    by (simp add: many1_def matches_Cat_iff matches_Chars_iff matches_Many_Chars_iff)
qed

lemma matches_upto2_iff: "matches (upto2 (Chars rs)) s \<longleftrightarrow> length s \<le> 2 \<and> list_all (in_class rs) s"
proof
  assume "matches (upto2 (Chars rs)) s"
  then show "length s \<le> 2 \<and> list_all (in_class rs) s"
    by (auto simp: upto2_def matches_Cat_iff matches_opt_iff matches_Chars_iff)
next
  assume a: "length s \<le> 2 \<and> list_all (in_class rs) s"
  then consider "s = []" | c where "s = [c]" | c d where "s = [c, d]"
    by (cases s; cases "tl s"; cases "tl (tl s)") auto
  then show "matches (upto2 (Chars rs)) s"
  proof cases
    case 1
    then show ?thesis by (auto simp: upto2_def matches_Cat_iff matches_opt_iff)
  next
    case 2
    with a have "s = [] @ [c] \<and> in_class rs c" by simp
    then show ?thesis unfolding upto2_def matches_Cat_iff matches_opt_iff matches_Chars_iff by blast
  next
    case 3
    with a have "s = [c] @ [d] \<and> in_class rs c \<and> in_class rs d" by simp
    then show ?thesis unfolding upto2_def matches_Cat_iff matches_opt_iff matches_Chars_iff by blast
  qed
qed

lemma matches_uri_shape:
  "matches (Cat (str w) (Cat (Chars A) (Cat (upto2 (Chars B)) (Cat (lit k) (many1 (Chars C)))))) s \<longleftrightarrow>
     (\<exists>c h p. s = w @ c # h @ k # p \<and> in_class A c \<and>
        length h \<le> 2 \<and> list_all (in_class B) h \<and> p \<noteq> [] \<and> list_all (in_class C) p)"
  (is "?L \<longleftrightarrow> ?R")
proof
  assume ?L
  then obtain s1 where s1: "s = w @ s1"
    and m1: "matches (Cat (Chars A) (Cat (upto2 (Chars B)) (Cat (lit k) (many1 (Chars C))))) s1"
    unfolding matches_Cat_iff [of "str _"] matches_str_iff by blast
  from m1 obtain c s2 where s2: "s1 = c # s2" and c: "in_class A c"
    and m2: "matches (Cat (upto2 (Chars B)) (Cat (lit k) (many1 (Chars C)))) s2"
    unfolding matches_Cat_iff [of "Chars _"] matches_Chars_iff by auto
  from m2 obtain h s3 where s3: "s2 = h @ s3" and h: "length h \<le> 2" "list_all (in_class B) h"
    and m3: "matches (Cat (lit k) (many1 (Chars C))) s3"
    unfolding matches_Cat_iff [of "upto2 _"] matches_upto2_iff by blast
  from m3 obtain p where s4: "s3 = k # p" and p: "p \<noteq> []" "list_all (in_class C) p"
    unfolding matches_Cat_iff [of "lit _"] matches_lit_iff matches_many1_iff by auto
  from s1 s2 s3 s4 c h p show ?R by blast
next
  assume ?R
  then obtain c h p where s: "s = w @ c # h @ k # p"
    and c: "in_class A c"
    and h: "length h \<le> 2" "list_all (in_class B) h"
    and p: "p \<noteq> []" "list_all (in_class C) p"
    by blast
  from p have m4: "matches (many1 (Chars C)) p" by (simp add: matches_many1_iff)
  have colon: "matches (lit k) [k]" by (simp add: matches_lit_iff)
  from h have m3: "matches (upto2 (Chars B)) h" by (simp add: matches_upto2_iff)
  from c have m2: "matches (Chars A) [c]" by (rule m_Chars)
  have m1: "matches (str w) w" by (simp only: matches_str_iff)
  note m_Cat [OF m1 m_Cat [OF m2 m_Cat [OF m3 m_Cat [OF colon m4]]]]
  with s show ?L by simp
qed

subsection \<open>The pattern and the grammar of the specification\<close>

lemma split_colon_not_Nil [simp]: "split_colon s \<noteq> []"
  by (induction s) (auto split: list.splits)

lemma split_colon_plain: "CHR '':'' \<notin> set a \<Longrightarrow> split_colon a = [a]"
  by (induction a) auto

lemma split_colon_append:
  "CHR '':'' \<notin> set a \<Longrightarrow> split_colon (a @ CHR '':'' # rest) = a # split_colon rest"
  by (induction a) (auto split: list.splits)

lemma split_colon_first:
  "split_colon s = x # xs \<Longrightarrow>
     CHR '':'' \<notin> set x \<and> (if xs = [] then s = x else \<exists>rest. s = x @ CHR '':'' # rest \<and> split_colon rest = xs)"
proof (induction s arbitrary: x xs)
  case Nil
  then show ?case by simp
next
  case (Cons c s)
  show ?case
  proof (cases "c = CHR '':''")
    case True
    with Cons.prems show ?thesis by auto
  next
    case False
    obtain y ys where y: "split_colon s = y # ys" by (cases "split_colon s") simp_all
    with False Cons.prems have x: "x = c # y" "xs = ys" by simp_all
    from Cons.IH [OF y] False x show ?thesis by auto
  qed
qed

lemma lower_hex_class [simp]:
  "in_class [(CHR ''0'', CHR ''9''), (CHR ''a'', CHR ''f'')] c \<longleftrightarrow> lower_hex c"
  by (simp add: in_class_def lower_hex_def)

lemma of_char_48: "(of_char c :: nat) = 48 \<longleftrightarrow> c = CHR ''0''"
proof -
  have "(of_char c :: nat) = of_char (CHR ''0'') \<longleftrightarrow> c = CHR ''0''" by (rule of_char_eq_iff)
  then show ?thesis by simp
qed

lemma first_digit_class [simp]:
  "in_class [(CHR ''1'', CHR ''9''), (CHR ''a'', CHR ''f'')] c \<longleftrightarrow> lower_hex c \<and> c \<noteq> CHR ''0''"
  using of_char_48 [of c] by (auto simp: in_class_def lower_hex_def in_range_def)

lemma base64url_class [simp]:
  "in_class [(CHR ''a'', CHR ''z''), (CHR ''A'', CHR ''Z''), (CHR ''0'', CHR ''9''),
             (CHR ''_'', CHR ''_''), (CHR ''-'', CHR ''-'')] c \<longleftrightarrow> base64url_alphabet c"
  by (auto simp: in_class_def base64url_alphabet_def)

lemma exec_FULFILLMENT_REGEX:
  "regex_exec FULFILLMENT_REGEX s \<longleftrightarrow>
     (\<exists>c h p. s = ''cf:1:'' @ c # h @ CHR '':'' # p \<and> (lower_hex c \<and> c \<noteq> CHR ''0'') \<and>
        length h \<le> 2 \<and> list_all lower_hex h \<and> p \<noteq> [] \<and> list_all base64url_alphabet p)"
proof -
  have "in_class [(CHR ''0'', CHR ''9''), (CHR ''a'', CHR ''f'')] = lower_hex"
    and "in_class [(CHR ''a'', CHR ''z''), (CHR ''A'', CHR ''Z''), (CHR ''0'', CHR ''9''),
             (CHR ''_'', CHR ''_''), (CHR ''-'', CHR ''-'')] = base64url_alphabet"
    by (rule ext, simp)+
  then show ?thesis
    unfolding regex_exec_iff FULFILLMENT_REGEX_def matches_uri_shape
    by (simp only: first_digit_class)
qed

lemma lower_hex_not_colon: "lower_hex c \<Longrightarrow> c \<noteq> CHR '':''"
  by (auto simp: lower_hex_def in_range_def)

lemma base64url_alphabet_not_colon: "base64url_alphabet c \<Longrightarrow> c \<noteq> CHR '':''"
  by (auto simp: base64url_alphabet_def in_range_def)

lemma no_colon_hex: "list_all lower_hex h \<Longrightarrow> CHR '':'' \<notin> set h"
  using lower_hex_not_colon by (auto simp: list_all_iff)

lemma no_colon_base64url: "list_all base64url_alphabet p \<Longrightarrow> CHR '':'' \<notin> set p"
  using base64url_alphabet_not_colon by (auto simp: list_all_iff)

lemma split_colon_uri:
  assumes "list_all lower_hex h" "list_all base64url_alphabet p"
  shows "split_colon (''cf:1:'' @ h @ CHR '':'' # p) = [''cf'', ''1'', h, p]"
proof -
  have "split_colon (''cf:1:'' @ h @ CHR '':'' # p) = ''cf'' # ''1'' # split_colon (h @ CHR '':'' # p)"
    by simp
  also have "split_colon (h @ CHR '':'' # p) = h # split_colon p"
    using assms(1) by (intro split_colon_append no_colon_hex)
  also have "split_colon p = [p]"
    using assms(2) by (intro split_colon_plain no_colon_base64url)
  finally show ?thesis .
qed

lemma uri_grammar_iff:
  "uri_grammar s \<longleftrightarrow>
     (\<exists>c h p. s = ''cf:1:'' @ c # h @ CHR '':'' # p \<and> (lower_hex c \<and> c \<noteq> CHR ''0'') \<and>
        length h \<le> 2 \<and> list_all lower_hex h \<and> p \<noteq> [] \<and> list_all base64url_alphabet p)"
  (is "?L \<longleftrightarrow> ?R")
proof
  assume ?L
  then obtain a b t p where sp: "split_colon s = [a, b, t, p]"
    and ab: "a = ''cf''" "b = ''1''"
    and t: "1 \<le> length t" "length t \<le> 3" "list_all lower_hex t" "hd t \<noteq> CHR ''0''"
    and p: "p \<noteq> []" "list_all base64url_alphabet p"
    by (auto simp: uri_grammar_def split: list.splits)
  from split_colon_first [OF sp] obtain r1 where r1: "s = a @ CHR '':'' # r1" "split_colon r1 = [b, t, p]"
    by auto
  from split_colon_first [OF r1(2)] obtain r2 where r2: "r1 = b @ CHR '':'' # r2" "split_colon r2 = [t, p]"
    by auto
  from split_colon_first [OF r2(2)] obtain r3 where r3: "r2 = t @ CHR '':'' # r3" "split_colon r3 = [p]"
    by auto
  from split_colon_first [OF r3(2)] have r4: "r3 = p" by simp
  from t obtain c h where ch: "t = c # h" by (cases t) auto
  with t have "lower_hex c \<and> c \<noteq> CHR ''0''" "length h \<le> 2" "list_all lower_hex h" by auto
  moreover from r1 r2 r3 r4 ab ch have "s = ''cf:1:'' @ c # h @ CHR '':'' # p" by simp
  ultimately show ?R using p by blast
next
  assume ?R
  then obtain c h p where s: "s = ''cf:1:'' @ (c # h) @ CHR '':'' # p"
    and c: "lower_hex c" "c \<noteq> CHR ''0''"
    and h: "length h \<le> 2" "list_all lower_hex h"
    and p: "p \<noteq> []" "list_all base64url_alphabet p"
    by auto
  from c h have "list_all lower_hex (c # h)" by simp
  from split_colon_uri [OF this p(2)] s have "split_colon s = [''cf'', ''1'', c # h, p]" by simp
  with c h p show ?L by (simp add: uri_grammar_def)
qed

lemma regex_is_grammar: "regex_exec FULFILLMENT_REGEX s \<longleftrightarrow> uri_grammar s"
  by (simp only: exec_FULFILLMENT_REGEX uri_grammar_iff)

subsection \<open>Hexadecimal rendering and parsing\<close>

lemma of_char_char_of_small: "n < 256 \<Longrightarrow> (of_char (char_of n :: char) :: nat) = n"
  by simp

lemma hex_value_hex_digit: "d < 16 \<Longrightarrow> hex_value (hex_digit d) = Some d"
  by (auto simp: hex_value_def hex_digit_def in_range_def)

lemma lower_hex_hex_digit: "d < 16 \<Longrightarrow> lower_hex (hex_digit d)"
  by (auto simp: lower_hex_def hex_digit_def in_range_def)

lemma hex_digit_zero: "d < 16 \<Longrightarrow> hex_digit d = CHR ''0'' \<longleftrightarrow> d = 0"
proof -
  assume d: "d < 16"
  have "hex_digit d = CHR ''0'' \<longleftrightarrow> (of_char (hex_digit d) :: nat) = 48"
    by (simp only: of_char_48)
  also have "\<dots> \<longleftrightarrow> d = 0" using d by (auto simp: hex_digit_def)
  finally show ?thesis .
qed

lemma lower_hex_value: "lower_hex c \<Longrightarrow> hex_value c \<noteq> None"
  by (auto simp: lower_hex_def hex_value_def)

lemma hex_digits_value_append:
  "list_all lower_hex s \<Longrightarrow> hex_digits_value acc (s @ t) = hex_digits_value (hex_digits_value acc s) t"
proof (induction s arbitrary: acc)
  case Nil
  show ?case by simp
next
  case (Cons c s)
  then obtain d where "hex_value c = Some d" using lower_hex_value [of c] by auto
  with Cons show ?case by simp
qed

lemma toString16_not_Nil [simp]: "toString16 n \<noteq> []"
  by (subst toString16.simps) simp

lemma lower_hex_toString16: "list_all lower_hex (toString16 n)"
  by (induction n rule: toString16.induct)
     (subst toString16.simps, simp add: lower_hex_hex_digit)

lemma hex_digits_value_toString16: "hex_digits_value 0 (toString16 n) = n"
proof (induction n rule: toString16.induct)
  case (1 n)
  show ?case
  proof (cases "n < 16")
    case True
    then show ?thesis by (subst toString16.simps) (simp add: hex_value_hex_digit)
  next
    case False
    with 1 have "hex_digits_value 0 (toString16 (n div 16)) = n div 16" by simp
    with False show ?thesis
      by (subst toString16.simps)
         (simp add: hex_digits_value_append lower_hex_toString16 hex_value_hex_digit)
  qed
qed

lemma hd_toString16: "hd (toString16 n) = CHR ''0'' \<longleftrightarrow> n = 0"
proof (induction n rule: toString16.induct)
  case (1 n)
  show ?case
  proof (cases "n < 16")
    case True
    then show ?thesis by (subst toString16.simps) (simp add: hex_digit_zero)
  next
    case False
    with 1 have "hd (toString16 (n div 16)) = CHR ''0'' \<longleftrightarrow> n div 16 = 0" by simp
    with False show ?thesis by (subst toString16.simps) simp
  qed
qed

lemma length_toString16: "length (toString16 n) \<le> Suc k \<longleftrightarrow> n < 16 ^ Suc k"
proof (induction k arbitrary: n)
  case 0
  show ?case by (subst toString16.simps) simp
next
  case (Suc k)
  show ?case
  proof (cases "n < 16")
    case True
    have "(16::nat) ^ 1 \<le> 16 ^ Suc (Suc k)" by (rule power_increasing) simp_all
    moreover from True have "n < 16 ^ 1" by simp
    ultimately have "n < 16 ^ Suc (Suc k)" by (rule less_le_trans [rotated])
    with True show ?thesis by (subst toString16.simps) simp
  next
    case False
    have "n div 16 < 16 ^ Suc k \<longleftrightarrow> n < 16 ^ Suc k * 16"
      by (rule div_less_iff_less_mult) simp
    then have "n div 16 < 16 ^ Suc k \<longleftrightarrow> n < 16 ^ Suc (Suc k)"
      by (simp only: power_Suc mult.commute)
    with False Suc [of "n div 16"] show ?thesis by (subst toString16.simps) simp
  qed
qed

lemma length_toString16_3: "length (toString16 n) \<le> 3 \<longleftrightarrow> n < 4096"
proof -
  have "(16::nat) ^ Suc 2 = 4096" and "(3::nat) = Suc 2" by simp_all
  with length_toString16 [of n 2] show ?thesis by (simp only:)
qed

lemma renders_hex_toString16: "renders_hex (toString16 n) n"
proof -
  have "hd (toString16 n) = CHR ''0'' \<longrightarrow> toString16 n = ''0''"
  proof
    assume "hd (toString16 n) = CHR ''0''"
    then have "n = 0" by (simp add: hd_toString16)
    then show "toString16 n = ''0''" using hex_digit_zero [of 0] by (subst toString16.simps) simp
  qed
  then show ?thesis
    by (simp add: renders_hex_def lower_hex_toString16 hex_digits_value_toString16)
qed

lemma parseInt16_toString16: "parseInt16 (Some (toString16 n)) = Some n"
proof -
  obtain c cs where s: "toString16 n = c # cs" by (cases "toString16 n") simp_all
  with lower_hex_toString16 [of n] have "hex_value c \<noteq> None" by (simp add: lower_hex_value)
  with s hex_digits_value_toString16 [of n] show ?thesis by (simp add: parseInt16_def)
qed

subsection \<open>URL-safe base64 is inverted by its decoder\<close>

lemma length_bits_of_nat [simp]: "length (bits_of_nat k n) = k"
  by (induction k arbitrary: n) simp_all

lemma nat_of_bits_snoc: "nat_of_bits (bs @ [b]) = 2 * nat_of_bits bs + (if b then 1 else 0)"
  by (simp add: nat_of_bits_def)

lemma nat_of_bits_Nil [simp]: "nat_of_bits [] = 0"
  by (simp add: nat_of_bits_def)

lemma nat_of_bits_of_nat: "nat_of_bits (bits_of_nat k n) = n mod 2 ^ k"
proof (induction k arbitrary: n)
  case 0
  show ?case by simp
next
  case (Suc k)
  have "n mod (2 * 2 ^ k) = 2 * (n div 2 mod 2 ^ k) + n mod 2"
    by (simp add: mod_mult2_eq)
  with Suc [of "n div 2"] show ?case
    by (auto simp: nat_of_bits_snoc odd_iff_mod_2_eq_one)
qed

lemma nat_of_bits_less: "nat_of_bits bs < 2 ^ length bs"
proof (induction bs rule: rev_induct)
  case Nil
  show ?case by simp
next
  case (snoc b bs)
  then show ?case by (simp add: nat_of_bits_snoc)
qed

lemma bits_of_nat_of_bits: "length bs = k \<Longrightarrow> bits_of_nat k (nat_of_bits bs) = bs"
proof (induction bs arbitrary: k rule: rev_induct)
  case Nil
  then show ?case by simp
next
  case (snoc b bs)
  then obtain j where k: "k = Suc j" "length bs = j" by (cases k) simp_all
  with snoc.IH [of j] show ?case by (simp add: nat_of_bits_snoc)
qed

lemma char_of_minus: "char_of (45::nat) = CHR ''-''" and char_of_underscore: "char_of (95::nat) = CHR ''_''"
  by (simp_all add: char_of_eq_iff)

lemma base64url_value_char: "v < 64 \<Longrightarrow> base64url_value (base64url_char v) = Some v"
  by (auto simp: base64url_value_def base64url_char_def in_range_def char_of_minus char_of_underscore)

lemma base64url_alphabet_value: "base64url_alphabet c \<longleftrightarrow> base64url_value c \<noteq> None"
  by (auto simp: base64url_alphabet_def base64url_value_def)

lemma base64url_alphabet_char: "v < 64 \<Longrightarrow> base64url_alphabet (base64url_char v)"
  by (simp add: base64url_alphabet_value base64url_value_char)

lemma groups_Nil [simp]: "groups k pad [] = []"
  by (subst groups.simps) simp

lemma groups_Cons:
  "0 < k \<Longrightarrow> length xs = k \<Longrightarrow> groups k pad (xs @ ys) = xs # groups k pad ys"
  by (subst groups.simps) auto

lemma groups_short: "0 < k \<Longrightarrow> length xs < k \<Longrightarrow> groups k False xs = []"
  by (subst groups.simps) auto

lemma groups_concat:
  "0 < k \<Longrightarrow> \<forall>x \<in> set xss. length x = k \<Longrightarrow> length tail < k \<Longrightarrow>
     groups k False (concat xss @ tail) = xss"
  by (induction xss) (simp_all add: groups_short groups_Cons)

lemma length_groups: "0 < k \<Longrightarrow> g \<in> set (groups k True bs) \<Longrightarrow> length g = k"
proof (induction k True bs rule: groups.induct)
  case (1 k bs)
  from "1.prems" show ?case
    by (subst (asm) groups.simps) (use 1 in \<open>auto split: if_splits\<close>)
qed

lemma concat_groups:
  "0 < k \<Longrightarrow> \<exists>tail. concat (groups k True bs) = bs @ tail \<and> length tail < k"
proof (induction k True bs rule: groups.induct)
  case (1 k bs)
  show ?case
  proof (cases "bs = []")
    case True
    with 1 show ?thesis by simp
  next
    case False
    show ?thesis
    proof (cases "length bs < k")
      case True
      with False "1.prems" have "concat (groups k True bs) = bs @ replicate (k - length bs) False"
        by (subst groups.simps) simp
      moreover from False True have "length (replicate (k - length bs) False) < k" by (cases bs) simp_all
      ultimately show ?thesis by blast
    next
      case long: False
      with False 1 obtain tail where "concat (groups k True (drop k bs)) = drop k bs @ tail" "length tail < k"
        by auto
      moreover from False long "1.prems" have "groups k True bs = take k bs # groups k True (drop k bs)"
        by (subst groups.simps) simp
      ultimately have "concat (groups k True bs) = bs @ tail \<and> length tail < k"
        by (simp flip: append_assoc)
      then show ?thesis by blast
    qed
  qed
qed

lemma groups_eq_Nil: "0 < k \<Longrightarrow> groups k True bs = [] \<longleftrightarrow> bs = []"
  by (subst groups.simps) simp

lemma byte_of_bits: "(of_nat (nat_of_bits (bits_of_nat 8 (unat b))) :: byte) = b"
proof -
  have "unat b < 2 ^ 8" using unsigned_less [of b] by simp
  then show ?thesis by (simp add: nat_of_bits_of_nat)
qed

lemma base64url_decode_encode: "base64url_decode (base64url_encode bytes) = bytes"
proof -
  define gs where "gs = groups 6 True (bits_of_bytes bytes)"
  have len: "\<forall>g \<in> set gs. length g = 6"
    unfolding gs_def using length_groups [of 6] by simp
  have "List.map_filter base64url_value (base64url_encode bytes) = map nat_of_bits gs"
  proof -
    have "\<forall>g \<in> set gs. base64url_value (base64url_char (nat_of_bits g)) = Some (nat_of_bits g)"
    proof
      fix g assume "g \<in> set gs"
      with len nat_of_bits_less [of g] have "nat_of_bits g < 64" by simp
      then show "base64url_value (base64url_char (nat_of_bits g)) = Some (nat_of_bits g)"
        by (rule base64url_value_char)
    qed
    then show ?thesis
      unfolding base64url_encode_def gs_def [symmetric]
      by (induction gs) (simp_all add: List.map_filter_simps)
  qed
  moreover have "concat (map (bits_of_nat 6) (map nat_of_bits gs)) = concat gs"
    using len by (induction gs) (simp_all add: bits_of_nat_of_bits)
  moreover obtain tail where "concat gs = bits_of_bytes bytes @ tail" "length tail < 6"
    unfolding gs_def using concat_groups [of 6] by auto
  moreover have "groups 8 False (bits_of_bytes bytes @ tail) = map (\<lambda>b. bits_of_nat 8 (unat b)) bytes"
    if "length tail < 6" for tail
    unfolding bits_of_bytes_def using that by (intro groups_concat) auto
  ultimately show ?thesis
    by (simp add: base64url_decode_def Let_def comp_def byte_of_bits)
qed

lemma base64url_encode_alphabet: "list_all base64url_alphabet (base64url_encode bytes)"
proof -
  have "base64url_alphabet (base64url_char (nat_of_bits g))"
    if "g \<in> set (groups 6 True (bits_of_bytes bytes))" for g
  proof -
    from that length_groups [of 6 g] have "length g = 6" by simp
    with nat_of_bits_less [of g] have "nat_of_bits g < 64" by simp
    then show ?thesis by (rule base64url_alphabet_char)
  qed
  then show ?thesis by (simp add: base64url_encode_def list_all_iff)
qed

lemma base64url_encode_eq_Nil: "base64url_encode bytes = [] \<longleftrightarrow> bytes = []"
proof -
  have "bits_of_bytes bytes = [] \<longleftrightarrow> bytes = []"
    by (cases bytes) (simp_all add: bits_of_bytes_def eval_nat_numeral)
  then show ?thesis by (simp add: base64url_encode_def groups_eq_Nil)
qed

subsection \<open>The methods of the base class\<close>

lemma invoke_eq: "invoke m this = (fst (m (props this)), this\<lparr>props := snd (m (props this))\<rparr>)"
  by (simp add: invoke_def split: prod.splits)

lemma invoke_writePayload_eq:
  "invoke_writePayload call this w =
     (case fst (writePayload (constructor this) (props this)) of
        Inl e \<Rightarrow> Inl e
      | Inr calls \<Rightarrow> Inr (foldl call w calls),
      this\<lparr>props := snd (writePayload (constructor this) (props this))\<rparr>)"
  by (simp add: invoke_writePayload_def invoke_eq split: sum.splits)

lemma serializePayload_eq:
  "serializePayload this =
     (case fst (writePayload (constructor this) (props this)) of
        Inl e \<Rightarrow> Inl e
      | Inr calls \<Rightarrow> Inr (getBuffer (foldl Writer_call Writer_new calls)),
      this\<lparr>props := snd (writePayload (constructor this) (props this))\<rparr>)"
  by (cases "fst (writePayload (constructor this) (props this))")
     (simp_all add: serializePayload_def invoke_writePayload_eq)

lemma serializePayload_Inr:
  "fst (serializePayload this) = Inr bytes \<longleftrightarrow> payload_bytes (constructor this) (props this) = Some bytes"
  by (cases "fst (writePayload (constructor this) (props this))")
     (simp_all add: serializePayload_eq payload_bytes_def)

lemma serializeBinary_eq:
  "serializeBinary this =
     (case fst (writePayload (constructor this) (props this)) of
        Inl e \<Rightarrow> Inl e
      | Inr calls \<Rightarrow> Inr (varuint (getTypeBit this) @ getBuffer (foldl Writer_call Writer_new calls)),
      this\<lparr>props := snd (writePayload (constructor this) (props this))\<rparr>)"
proof -
  have start: "Writer_writeVarUInt Writer_new (getTypeBit this) = Writer (varuint (getTypeBit this))"
    by (simp add: Writer_writeVarUInt_def Writer_new_def)
  show ?thesis
    by (cases "fst (writePayload (constructor this) (props this))")
       (simp_all add: serializeBinary_def invoke_writePayload_eq start
          Writer_calls_append [of "varuint (getTypeBit this)"])
qed

lemma serializeBinary_Inr:
  "fst (serializeBinary this) = Inr bytes \<longleftrightarrow>
     (\<exists>payload. payload_bytes (constructor this) (props this) = Some payload \<and>
        bytes = varuint (TYPE_BIT (constructor this)) @ payload)"
  by (cases "fst (writePayload (constructor this) (props this))")
     (auto simp: serializeBinary_eq payload_bytes_def getTypeBit_def)

lemma serializeUri_eq:
  "serializeUri this =
     (case fst (serializePayload this) of
        Inl e \<Rightarrow> Inl e
      | Inr payload \<Rightarrow> Inr (''cf:1:'' @ toString16 (getTypeBit this) @ '':'' @ base64url_encode payload),
      snd (serializePayload this))"
  by (cases "serializePayload this"; cases "fst (serializePayload this)")
     (simp_all add: serializeUri_def)

lemma calculateMaxFulfillmentLength_eq:
  "calculateMaxFulfillmentLength this =
     (case fst (writePayload (constructor this) (props this)) of
        Inl e \<Rightarrow> Inl e
      | Inr calls \<Rightarrow> Inr (length (getBuffer (foldl Writer_call Writer_new calls))),
      this\<lparr>props := snd (writePayload (constructor this) (props this))\<rparr>)"
  by (cases "fst (writePayload (constructor this) (props this))")
     (simp_all add: calculateMaxFulfillmentLength_def invoke_writePayload_eq Predictor_new_def
        Predictor_calls_size [of 0, simplified])

lemma virtual_snd_base:
  "override (constructor this) = None \<Longrightarrow> virtual override base this = base this"
  by (simp add: virtual_def)

lemma virtual_keeps:
  "keeps (override (constructor this)) (props this) \<Longrightarrow> snd (base this) = this \<Longrightarrow>
     snd (virtual override base this) = this"
  by (auto simp: virtual_def keeps_def invoke_eq split: option.splits)

lemma read_only_writePayload: "read_only (constructor this) (props this) \<Longrightarrow>
  this\<lparr>props := snd (writePayload (constructor this) (props this))\<rparr> = this"
  by (simp add: read_only_def)

lemma getCondition_eq:
  "getCondition this =
     (case virtual getBitmask_override getBitmask this of
        (Inl e, this1) \<Rightarrow> (Inl e, this1)
      | (Inr b, this1) \<Rightarrow>
          (case virtual generateHash_override generateHash this1 of
             (Inl e, this2) \<Rightarrow> (Inl e, this2)
           | (Inr h, this2) \<Rightarrow>
               (case virtual calculateMaxFulfillmentLength_override calculateMaxFulfillmentLength this2 of
                  (Inl e, this3) \<Rightarrow> (Inl e, this3)
                | (Inr n, this3) \<Rightarrow>
                    (Inr \<lparr>bitmask = Some b, hash = Some h, maxFulfillmentLength = Some n\<rparr>, this3))))"
proof -
  have upd: "\<lparr>bitmask = None, hash = None, maxFulfillmentLength = None\<rparr>
      \<lparr>bitmask := Some b, hash := Some h, maxFulfillmentLength := Some n\<rparr> =
      \<lparr>bitmask = Some b, hash = Some h, maxFulfillmentLength = Some n\<rparr>" for b h n
    by simp
  show ?thesis
    unfolding getCondition_def Let_def Condition_new_def setBitmask_def setHash_def
      setMaxFulfillmentLength_def upd ..
qed

lemma read_only_snd:
  assumes "read_only (constructor this) (props this)"
  shows "snd (virtual getBitmask_override getBitmask this) = this"
    and "snd (virtual generateHash_override generateHash this) = this"
    and "snd (virtual calculateMaxFulfillmentLength_override calculateMaxFulfillmentLength this) = this"
    and "snd (serializePayload this) = this"
    and "snd (serializeBinary this) = this"
    and "snd (serializeUri this) = this"
    and "snd (calculateMaxFulfillmentLength this) = this"
proof -
  from assms have w: "this\<lparr>props := snd (writePayload (constructor this) (props this))\<rparr> = this"
    by (simp add: read_only_def)
  show p: "snd (serializePayload this) = this" by (simp add: serializePayload_eq w)
  show "snd (serializeBinary this) = this" by (simp add: serializeBinary_eq w)
  show "snd (serializeUri this) = this" by (simp add: serializeUri_eq p)
  show c: "snd (calculateMaxFulfillmentLength this) = this"
    by (simp add: calculateMaxFulfillmentLength_eq w)
  from assms show "snd (virtual getBitmask_override getBitmask this) = this"
    by (intro virtual_keeps) (simp_all add: read_only_def getBitmask_def)
  from assms show "snd (virtual generateHash_override generateHash this) = this"
    by (intro virtual_keeps) (simp_all add: read_only_def generateHash_def)
  from assms c show "snd (virtual calculateMaxFulfillmentLength_override calculateMaxFulfillmentLength this) = this"
    by (intro virtual_keeps) (simp_all add: read_only_def)
qed

lemma getCondition_read_only:
  assumes "read_only (constructor this) (props this)"
  shows "getCondition this =
     ((case fst (virtual getBitmask_override getBitmask this) of
        Inl e \<Rightarrow> Inl e
      | Inr b \<Rightarrow>
          (case fst (virtual generateHash_override generateHash this) of
             Inl e \<Rightarrow> Inl e
           | Inr h \<Rightarrow>
               (case fst (virtual calculateMaxFulfillmentLength_override calculateMaxFulfillmentLength this) of
                  Inl e \<Rightarrow> Inl e
                | Inr n \<Rightarrow> Inr \<lparr>bitmask = Some b, hash = Some h, maxFulfillmentLength = Some n\<rparr>))), this)"
proof -
  obtain r1 where r1: "virtual getBitmask_override getBitmask this = (r1, this)"
    using read_only_snd(1) [OF assms] by (cases "virtual getBitmask_override getBitmask this") simp
  obtain r2 where r2: "virtual generateHash_override generateHash this = (r2, this)"
    using read_only_snd(2) [OF assms] by (cases "virtual generateHash_override generateHash this") simp
  obtain r3 where r3: "virtual calculateMaxFulfillmentLength_override calculateMaxFulfillmentLength this = (r3, this)"
    using read_only_snd(3) [OF assms]
    by (cases "virtual calculateMaxFulfillmentLength_override calculateMaxFulfillmentLength this") simp
  show ?thesis
    by (subst getCondition_eq) (simp add: r1 r2 r3 split: sum.splits)
qed


subsection \<open>The checks of \<open>fromUri\<close>\<close>

lemma fromUri_scheme:
  \<open>at (split_colon s) 0 \<noteq> Some ''cf'' \<Longrightarrow>
     fromUri registry (JSString s) =
       Inl (PrefixError ''Serialized fulfillment must start with "cf:"'')\<close>
  by (simp add: fromUri_def)

lemma fromUri_version:
  "at (split_colon s) 0 = Some ''cf'' \<Longrightarrow> at (split_colon s) 1 \<noteq> Some ''1'' \<Longrightarrow>
     fromUri registry (JSString s) = Inl (PrefixError ''Fulfillment must be version 1'')"
  by (simp add: fromUri_def)

lemma fromUri_format:
  "at (split_colon s) 0 = Some ''cf'' \<Longrightarrow> at (split_colon s) 1 = Some ''1'' \<Longrightarrow>
     \<not> uri_grammar s \<Longrightarrow>
     fromUri registry (JSString s) = Inl (ParseError ''Invalid fulfillment format'')"
  by (simp add: fromUri_def regex_is_grammar)

lemma at_0: "at xs 0 = Some x \<longleftrightarrow> (\<exists>ys. xs = x # ys)"
  by (cases xs) auto

lemma at_1: "at xs (Suc 0) = Some y \<longleftrightarrow> (\<exists>x zs. xs = x # y # zs)"
  by (cases xs; cases "tl xs") auto

lemma passes_prefix_checks:
  assumes "at (split_colon s) 0 = Some ''cf''" "at (split_colon s) 1 = Some ''1''"
  shows "s = ''cf:1'' \<or> startsWith s ''cf:1:''"
proof -
  from assms obtain zs where sp: "split_colon s = ''cf'' # ''1'' # zs"
    by (cases "split_colon s"; cases "tl (split_colon s)") auto
  from split_colon_first [OF sp] obtain r1 where r1: "s = ''cf'' @ CHR '':'' # r1"
    and sp1: "split_colon r1 = ''1'' # zs"
    by auto
  show ?thesis
  proof (cases "zs = []")
    case True
    with split_colon_first [OF sp1] r1 show ?thesis by simp
  next
    case False
    with split_colon_first [OF sp1] obtain r2 where "r1 = ''1'' @ CHR '':'' # r2" by auto
    with r1 show ?thesis by (simp add: startsWith_def)
  qed
qed

lemma fromUri_pieces:
  "regex_exec FULFILLMENT_REGEX s \<Longrightarrow>
     \<exists>h p. at (split_colon s) 2 = Some h \<and> at (split_colon s) 3 = Some p"
  by (auto simp: regex_is_grammar uri_grammar_def eval_nat_numeral split: list.splits)

lemma fromUri_well_formed:
  assumes h: "list_all lower_hex h" "h \<noteq> []" "length h \<le> 3" "hd h \<noteq> CHR ''0''"
    and p: "p \<noteq> []" "list_all base64url_alphabet p"
  shows "fromUri registry (JSString (''cf:1:'' @ h @ '':'' @ p)) =
     (case getClassFromTypeBit registry (parseInt16 (Some h)) of
        Inl e \<Rightarrow> Inl e
      | Inr cls \<Rightarrow>
          (case parsePayload cls (new cls) (Reader_from (base64url_decode p)) of
             Inl e \<Rightarrow> Inl e
           | Inr (q, rest) \<Rightarrow> Inr \<lparr>constructor = cls, props = q\<rparr>))"
proof -
  let ?s = "''cf:1:'' @ h @ '':'' @ p"
  have sp: "split_colon ?s = [''cf'', ''1'', h, p]"
    using split_colon_uri [OF h(1) p(2)] by simp
  from h(2) have "1 \<le> length h" by (cases h) simp_all
  with sp h p have "uri_grammar ?s"
    unfolding uri_grammar_def by simp
  then have re: "regex_exec FULFILLMENT_REGEX ?s"
    by (simp only: regex_is_grammar)
  have at: "at (split_colon ?s) 0 = Some ''cf''" "at (split_colon ?s) 1 = Some ''1''"
    "at (split_colon ?s) 2 = Some h" "at (split_colon ?s) 3 = Some p"
    unfolding sp by (simp_all add: eval_nat_numeral)
  show ?thesis
    unfolding fromUri_def js_value.case Let_def at using re
    by (simp only: simp_thms if_False if_True option.case not_True_eq_False)
qed

section \<open>The claims\<close>

text \<open>
  C1. Binary round trip. For a fulfillment \<open>f\<close> whose class is registered under its
  type bit and whose payload is valid for the class, \<open>fromBinary(serializeBinary(f))\<close>
  succeeds, and the fulfillment it returns serializes to the same bytes.
\<close>

theorem binary_round_trip:
  assumes reg: "registry (TYPE_BIT (constructor f)) = Some (constructor f)"
    and valid: "valid_payload (constructor f) (props f)"
  shows "\<exists>bytes g rest.
           fst (serializeBinary f) = Inr bytes \<and>
           fromBinary registry bytes = Inr (g, rest) \<and>
           fst (serializeBinary g) = Inr bytes"
proof -
  let ?cls = "constructor f"
  from valid obtain payload p' rest where
    written: "payload_bytes ?cls (props f) = Some payload"
    and parsed: "parsePayload ?cls (new ?cls) (Reader_from payload) = Inr (p', rest)"
    and again: "payload_bytes ?cls p' = Some payload"
    by (auto simp: valid_payload_def split: option.splits sum.splits)
  let ?bytes = "varuint (TYPE_BIT ?cls) @ payload"
  let ?g = "\<lparr>constructor = ?cls, props = p'\<rparr>"
  from written have "fst (serializeBinary f) = Inr ?bytes"
    by (simp add: serializeBinary_Inr)
  moreover from reg parsed have "fromBinary registry ?bytes = Inr (?g, rest)"
    by (simp add: fromBinary_def Reader_from_def readVarUInt_varuint getClassFromTypeBit_def)
  moreover from again have "fst (serializeBinary ?g) = Inr ?bytes"
    by (simp add: serializeBinary_Inr)
  ultimately show ?thesis by blast
qed

theorem binary_round_trip_witness:
  "example_registry (TYPE_BIT Preimage) = Some Preimage \<and> valid_payload Preimage [1, 2, 3]
   \<and> (\<exists>bytes g rest.
         fst (serializeBinary \<lparr>constructor = Preimage, props = [1, 2, 3]\<rparr>) = Inr bytes \<and>
         fromBinary example_registry bytes = Inr (g, rest) \<and>
         fst (serializeBinary g) = Inr bytes)"
proof -
  let ?f = "\<lparr>constructor = Preimage, props = [1, 2, 3]\<rparr>"
  have reg: "example_registry (TYPE_BIT Preimage) = Some Preimage"
    by (simp add: example_registry_def Preimage_def)
  have valid: "valid_payload Preimage [1, 2, 3]"
    by code_simp
  have "example_registry (TYPE_BIT (constructor ?f)) = Some (constructor ?f)"
    "valid_payload (constructor ?f) (props ?f)"
    using reg valid by simp_all
  from reg valid binary_round_trip [of example_registry ?f, OF this] show ?thesis by (intro conjI)
qed

text \<open>
  C2. URI round trip, as amended. For a fulfillment \<open>f\<close> whose class is registered
  under its type bit, whose type bit is between 1 and 4095 and whose valid payload is
  not empty, \<open>fromUri(f.serializeUri())\<close> succeeds, and the fulfillment it returns
  serializes to the same URI. As stated, for every payload and every type bit, the
  claim fails: an empty payload leaves nothing after the last colon, and a type bit of
  4096 or more has four hexadecimal digits, and the pattern rejects both.
\<close>

theorem uri_round_trip:
  assumes reg: "registry (TYPE_BIT (constructor f)) = Some (constructor f)"
    and valid: "valid_payload (constructor f) (props f)"
    and typeBit: "0 < TYPE_BIT (constructor f)" "TYPE_BIT (constructor f) < 4096"
    and nonempty: "payload_bytes (constructor f) (props f) \<noteq> Some []"
  shows "\<exists>uri g.
           fst (serializeUri f) = Inr uri \<and>
           fromUri registry (JSString uri) = Inr g \<and>
           fst (serializeUri g) = Inr uri"
proof -
  let ?cls = "constructor f"
  from valid obtain payload p' rest where
    written: "payload_bytes ?cls (props f) = Some payload"
    and parsed: "parsePayload ?cls (new ?cls) (Reader_from payload) = Inr (p', rest)"
    and again: "payload_bytes ?cls p' = Some payload"
    by (auto simp: valid_payload_def split: option.splits sum.splits)
  let ?h = "toString16 (TYPE_BIT ?cls)"
  let ?p = "base64url_encode payload"
  let ?uri = "''cf:1:'' @ ?h @ '':'' @ ?p"
  let ?g = "\<lparr>constructor = ?cls, props = p'\<rparr>"
  from written nonempty have "payload \<noteq> []" by auto
  then have p: "?p \<noteq> []" "list_all base64url_alphabet ?p"
    by (simp_all add: base64url_encode_eq_Nil base64url_encode_alphabet)
  from typeBit have h: "list_all lower_hex ?h" "?h \<noteq> []" "length ?h \<le> 3" "hd ?h \<noteq> CHR ''0''"
    by (simp_all add: lower_hex_toString16 length_toString16_3 hd_toString16)
  from written have "fst (serializeUri f) = Inr ?uri"
    by (simp add: serializeUri_eq serializePayload_Inr [THEN iffD2] getTypeBit_def)
  moreover have "fromUri registry (JSString ?uri) = Inr ?g"
  proof -
    note fromUri_well_formed [OF h p, of registry]
    also from reg parsed have
      "(case getClassFromTypeBit registry (parseInt16 (Some ?h)) of
          Inl e \<Rightarrow> Inl e
        | Inr cls \<Rightarrow>
            (case parsePayload cls (new cls) (Reader_from (base64url_decode ?p)) of
               Inl e \<Rightarrow> Inl e
             | Inr (q, rest) \<Rightarrow> Inr \<lparr>constructor = cls, props = q\<rparr>)) = Inr ?g"
      by (simp add: parseInt16_toString16 getClassFromTypeBit_def base64url_decode_encode)
    finally show ?thesis .
  qed
  moreover from again have "fst (serializeUri ?g) = Inr ?uri"
    by (simp add: serializeUri_eq serializePayload_Inr [THEN iffD2] getTypeBit_def)
  ultimately show ?thesis by blast
qed

theorem uri_round_trip_witness:
  "example_registry (TYPE_BIT Preimage) = Some Preimage \<and> valid_payload Preimage [1, 2, 3]
   \<and> 0 < TYPE_BIT Preimage \<and> TYPE_BIT Preimage < 4096
   \<and> payload_bytes Preimage [1, 2, 3] = Some [3, 1, 2, 3]
   \<and> (\<exists>uri g.
         fst (serializeUri \<lparr>constructor = Preimage, props = [1, 2, 3]\<rparr>) = Inr uri \<and>
         fromUri example_registry (JSString uri) = Inr g \<and>
         fst (serializeUri g) = Inr uri)"
proof -
  let ?f = "\<lparr>constructor = Preimage, props = [1, 2, 3]\<rparr>"
  have reg: "example_registry (TYPE_BIT Preimage) = Some Preimage"
    by (simp add: example_registry_def Preimage_def)
  have valid: "valid_payload Preimage [1, 2, 3]"
    by code_simp
  have typeBit: "0 < TYPE_BIT Preimage" "TYPE_BIT Preimage < 4096"
    by (simp_all add: Preimage_def)
  have bytes: "payload_bytes Preimage [1, 2, 3] = Some [3, 1, 2, 3]"
    by code_simp
  have "example_registry (TYPE_BIT (constructor ?f)) = Some (constructor ?f)"
    "valid_payload (constructor ?f) (props ?f)"
    "0 < TYPE_BIT (constructor ?f)" "TYPE_BIT (constructor ?f) < 4096"
    "payload_bytes (constructor ?f) (props ?f) \<noteq> Some []"
    using reg valid typeBit bytes by simp_all
  from reg valid typeBit bytes uri_round_trip [of example_registry ?f, OF this]
  show ?thesis by (intro conjI)
qed

theorem uri_round_trip_counterexample:
  "example_registry (TYPE_BIT Nothing) = Some Nothing \<and> valid_payload Nothing []
   \<and> fst (serializeUri \<lparr>constructor = Nothing, props = []\<rparr>) = Inr ''cf:1:2:''
   \<and> fromUri example_registry (JSString ''cf:1:2:'') = Inl (ParseError ''Invalid fulfillment format'')
   \<and> example_registry (TYPE_BIT Wide) = Some Wide \<and> valid_payload Wide [1, 2, 3]
   \<and> fst (serializeUri \<lparr>constructor = Wide, props = [1, 2, 3]\<rparr>) = Inr ''cf:1:1000:AwECAw''
   \<and> fromUri example_registry (JSString ''cf:1:1000:AwECAw'') =
        Inl (ParseError ''Invalid fulfillment format'')"
proof -
  have "example_registry (TYPE_BIT Nothing) = Some Nothing"
    by (simp add: example_registry_def Nothing_def)
  moreover have "valid_payload Nothing []"
    by code_simp
  moreover have "fst (serializeUri \<lparr>constructor = Nothing, props = []\<rparr>) = Inr ''cf:1:2:''"
    by code_simp
  moreover have "fromUri example_registry (JSString ''cf:1:2:'') =
      Inl (ParseError ''Invalid fulfillment format'')"
    by (rule fromUri_format) (simp_all add: uri_grammar_def)
  moreover have "example_registry (TYPE_BIT Wide) = Some Wide"
    by (simp add: example_registry_def Wide_def Preimage_def)
  moreover have "valid_payload Wide [1, 2, 3]"
    by code_simp
  moreover have "fst (serializeUri \<lparr>constructor = Wide, props = [1, 2, 3]\<rparr>) = Inr ''cf:1:1000:AwECAw''"
    by code_simp
  moreover have "fromUri example_registry (JSString ''cf:1:1000:AwECAw'') =
      Inl (ParseError ''Invalid fulfillment format'')"
    by (rule fromUri_format) (simp_all add: uri_grammar_def)
  ultimately show ?thesis by (intro conjI)
qed




text \<open>
  C4. \<open>getCondition()\<close> returns a new Condition whose bitmask is what
  \<open>this.getBitmask()\<close> returned, whose hash is what \<open>this.generateHash()\<close> returned and
  whose maximal fulfillment length is what \<open>this.calculateMaxFulfillmentLength()\<close>
  returned, called in this order, and throws what the first of them to throw has thrown.
  Where the methods of the class leave the instance as it is, the three are called on the
  instance as it was, \<open>getCondition()\<close> leaves it as it was, and a second call returns
  the same as the first.
\<close>

theorem getCondition_derivation:
  "getCondition this =
     (case virtual getBitmask_override getBitmask this of
        (Inl e, this1) \<Rightarrow> (Inl e, this1)
      | (Inr b, this1) \<Rightarrow>
          (case virtual generateHash_override generateHash this1 of
             (Inl e, this2) \<Rightarrow> (Inl e, this2)
           | (Inr h, this2) \<Rightarrow>
               (case virtual calculateMaxFulfillmentLength_override
                       calculateMaxFulfillmentLength this2 of
                  (Inl e, this3) \<Rightarrow> (Inl e, this3)
                | (Inr n, this3) \<Rightarrow>
                    (Inr \<lparr>bitmask = Some b, hash = Some h, maxFulfillmentLength = Some n\<rparr>,
                     this3))))
   \<and> (read_only (constructor this) (props this) \<longrightarrow>
        fst (getCondition this) =
          (case fst (virtual getBitmask_override getBitmask this) of
             Inl e \<Rightarrow> Inl e
           | Inr b \<Rightarrow>
               (case fst (virtual generateHash_override generateHash this) of
                  Inl e \<Rightarrow> Inl e
                | Inr h \<Rightarrow>
                    (case fst (virtual calculateMaxFulfillmentLength_override
                                 calculateMaxFulfillmentLength this) of
                       Inl e \<Rightarrow> Inl e
                     | Inr n \<Rightarrow>
                         Inr \<lparr>bitmask = Some b, hash = Some h, maxFulfillmentLength = Some n\<rparr>)))
        \<and> snd (getCondition this) = this
        \<and> fst (getCondition (snd (getCondition this))) = fst (getCondition this))"
proof (intro conjI impI)
  show "getCondition this =
     (case virtual getBitmask_override getBitmask this of
        (Inl e, this1) \<Rightarrow> (Inl e, this1)
      | (Inr b, this1) \<Rightarrow>
          (case virtual generateHash_override generateHash this1 of
             (Inl e, this2) \<Rightarrow> (Inl e, this2)
           | (Inr h, this2) \<Rightarrow>
               (case virtual calculateMaxFulfillmentLength_override
                       calculateMaxFulfillmentLength this2 of
                  (Inl e, this3) \<Rightarrow> (Inl e, this3)
                | (Inr n, this3) \<Rightarrow>
                    (Inr \<lparr>bitmask = Some b, hash = Some h, maxFulfillmentLength = Some n\<rparr>,
                     this3))))"
    by (rule getCondition_eq)
next
  assume r: "read_only (constructor this) (props this)"
  note eq = getCondition_read_only [OF r]
  show "fst (getCondition this) =
          (case fst (virtual getBitmask_override getBitmask this) of
             Inl e \<Rightarrow> Inl e
           | Inr b \<Rightarrow>
               (case fst (virtual generateHash_override generateHash this) of
                  Inl e \<Rightarrow> Inl e
                | Inr h \<Rightarrow>
                    (case fst (virtual calculateMaxFulfillmentLength_override
                                 calculateMaxFulfillmentLength this) of
                       Inl e \<Rightarrow> Inl e
                     | Inr n \<Rightarrow>
                         Inr \<lparr>bitmask = Some b, hash = Some h, maxFulfillmentLength = Some n\<rparr>)))"
    by (subst eq) simp
  show same: "snd (getCondition this) = this"
    by (subst eq) simp
  show "fst (getCondition (snd (getCondition this))) = fst (getCondition this)"
    by (simp only: same)
qed

theorem getCondition_derivation_witness:
  "read_only Preimage [1, 2, 3]
   \<and> fst (getCondition \<lparr>constructor = Preimage, props = [1, 2, 3]\<rparr>) =
       Inr \<lparr>bitmask = Some 1, hash = Some [6], maxFulfillmentLength = Some 4\<rparr>
   \<and> fst (getCondition (snd (getCondition \<lparr>constructor = Preimage, props = [1, 2, 3]\<rparr>))) =
       Inr \<lparr>bitmask = Some 1, hash = Some [6], maxFulfillmentLength = Some 4\<rparr>"
proof -
  let ?f = "\<lparr>constructor = Preimage, props = [1, 2, 3]\<rparr>"
  have r: "read_only Preimage [1, 2, 3]"
    by (simp add: read_only_def keeps_def Preimage_def)
  then have r': "read_only (constructor ?f) (props ?f)"
    by simp
  have b: "fst (virtual getBitmask_override getBitmask ?f) = Inr 1"
    by code_simp
  have h: "fst (virtual generateHash_override generateHash ?f) = Inr [6]"
    by code_simp
  have n: "fst (virtual calculateMaxFulfillmentLength_override calculateMaxFulfillmentLength ?f) = Inr 4"
    by code_simp
  note d = getCondition_derivation [of ?f, THEN conjunct2, rule_format, OF r']
  from d have first:
    "fst (getCondition ?f) = Inr \<lparr>bitmask = Some 1, hash = Some [6], maxFulfillmentLength = Some 4\<rparr>"
    by (simp only: b h n sum.case)
  from d have "fst (getCondition (snd (getCondition ?f))) = fst (getCondition ?f)"
    by (elim conjE)
  with first r show ?thesis by (simp only: simp_thms)
qed

text \<open>
  C5. Prefix rejection, as amended. \<open>fromUri\<close> throws a PrefixError when the first
  piece of the string between colons is not \<open>cf\<close>, and another PrefixError, with another
  message, when the second piece is missing or is not \<open>1\<close>. So it throws a PrefixError
  for every string that neither starts with \<open>cf:1:\<close> nor is \<open>cf:1\<close>; among them
  \<open>xx:1:1:AA\<close> and \<open>cf:2:1:AA\<close>. As stated, for every string that does not start with
  \<open>cf:1:\<close>, the claim fails: \<open>cf:1\<close> passes both checks and is rejected by the pattern,
  with a ParseError.
\<close>

theorem prefix_rejection:
  \<open>(at (split_colon s) 0 \<noteq> Some ''cf'' \<longrightarrow>
      fromUri registry (JSString s) =
        Inl (PrefixError ''Serialized fulfillment must start with "cf:"''))
   \<and> (at (split_colon s) 0 = Some ''cf'' \<and> at (split_colon s) 1 \<noteq> Some ''1'' \<longrightarrow>
      fromUri registry (JSString s) = Inl (PrefixError ''Fulfillment must be version 1''))
   \<and> (\<not> startsWith s ''cf:1:'' \<and> s \<noteq> ''cf:1'' \<longrightarrow>
      (\<exists>message. fromUri registry (JSString s) = Inl (PrefixError message)))
   \<and> fromUri registry (JSString ''xx:1:1:AA'') =
        Inl (PrefixError ''Serialized fulfillment must start with "cf:"'')
   \<and> fromUri registry (JSString ''cf:2:1:AA'') = Inl (PrefixError ''Fulfillment must be version 1'')
   \<and> ''Serialized fulfillment must start with "cf:"'' \<noteq> ''Fulfillment must be version 1''\<close>
proof (intro conjI impI)
  assume "at (split_colon s) 0 \<noteq> Some ''cf''"
  then show \<open>fromUri registry (JSString s) =
        Inl (PrefixError ''Serialized fulfillment must start with "cf:"'')\<close>
    by (rule fromUri_scheme)
next
  assume "at (split_colon s) 0 = Some ''cf'' \<and> at (split_colon s) 1 \<noteq> Some ''1''"
  then show "fromUri registry (JSString s) = Inl (PrefixError ''Fulfillment must be version 1'')"
    by (simp add: fromUri_version)
next
  assume a: "\<not> startsWith s ''cf:1:'' \<and> s \<noteq> ''cf:1''"
  with passes_prefix_checks [of s]
  have "at (split_colon s) 0 \<noteq> Some ''cf'' \<or>
      (at (split_colon s) 0 = Some ''cf'' \<and> at (split_colon s) 1 \<noteq> Some ''1'')"
    by blast
  then show "\<exists>message. fromUri registry (JSString s) = Inl (PrefixError message)"
    using fromUri_scheme [of s registry] fromUri_version [of s registry] by blast
next
  show \<open>fromUri registry (JSString ''xx:1:1:AA'') =
        Inl (PrefixError ''Serialized fulfillment must start with "cf:"'')\<close>
    by (rule fromUri_scheme) simp
next
  show "fromUri registry (JSString ''cf:2:1:AA'') = Inl (PrefixError ''Fulfillment must be version 1'')"
    by (rule fromUri_version) simp_all
next
  show \<open>''Serialized fulfillment must start with "cf:"'' \<noteq> ''Fulfillment must be version 1''\<close>
    by simp
qed

theorem prefix_rejection_witness:
  \<open>at (split_colon ''cf'') 0 = Some ''cf'' \<and> at (split_colon ''cf'') 1 \<noteq> Some ''1''
   \<and> fromUri example_registry (JSString ''cf'') = Inl (PrefixError ''Fulfillment must be version 1'')
   \<and> fromUri example_registry (JSString ''xx:1:1:AA'') =
        Inl (PrefixError ''Serialized fulfillment must start with "cf:"'')\<close>
proof -
  have pieces: "at (split_colon ''cf'') 0 = Some ''cf''" "at (split_colon ''cf'') 1 \<noteq> Some ''1''"
    by simp_all
  note claim = prefix_rejection [of "''cf''" example_registry]
  from claim pieces have
    "fromUri example_registry (JSString ''cf'') = Inl (PrefixError ''Fulfillment must be version 1'')"
    by blast
  moreover from claim have \<open>fromUri example_registry (JSString ''xx:1:1:AA'') =
        Inl (PrefixError ''Serialized fulfillment must start with "cf:"'')\<close>
    by blast
  ultimately show ?thesis using pieces by (intro conjI)
qed

theorem prefix_rejection_counterexample:
  "\<not> startsWith ''cf:1'' ''cf:1:''
   \<and> fromUri example_registry (JSString ''cf:1'') = Inl (ParseError ''Invalid fulfillment format'')"
proof -
  have "\<not> uri_grammar ''cf:1''" by (simp add: uri_grammar_def)
  then have "fromUri example_registry (JSString ''cf:1'') = Inl (ParseError ''Invalid fulfillment format'')"
    by (intro fromUri_format) simp_all
  then show ?thesis by (simp add: startsWith_def)
qed

text \<open>
  C6. Grammar rejection. For every string that passes the checks of the scheme and the
  version and is not of the grammar \<open>cf:1:<typeBitHex>:<payloadBase64Url>\<close>, \<open>fromUri\<close>
  throws a ParseError; \<open>cf:1:0:AA\<close> is such a string.
\<close>

theorem grammar_rejection:
  "(at (split_colon s) 0 = Some ''cf'' \<and> at (split_colon s) 1 = Some ''1'' \<and> \<not> uri_grammar s \<longrightarrow>
      fromUri registry (JSString s) = Inl (ParseError ''Invalid fulfillment format''))
   \<and> \<not> uri_grammar ''cf:1:0:AA''
   \<and> fromUri registry (JSString ''cf:1:0:AA'') = Inl (ParseError ''Invalid fulfillment format'')"
proof -
  have zero: "\<not> uri_grammar ''cf:1:0:AA''" by (simp add: uri_grammar_def)
  then have "fromUri registry (JSString ''cf:1:0:AA'') = Inl (ParseError ''Invalid fulfillment format'')"
    by (intro fromUri_format) simp_all
  with zero show ?thesis by (simp add: fromUri_format)
qed

theorem grammar_rejection_witness:
  "at (split_colon ''cf:1:1g:AA'') 0 = Some ''cf'' \<and> at (split_colon ''cf:1:1g:AA'') 1 = Some ''1''
   \<and> \<not> uri_grammar ''cf:1:1g:AA''
   \<and> fromUri example_registry (JSString ''cf:1:1g:AA'') = Inl (ParseError ''Invalid fulfillment format'')"
proof -
  have pieces: "at (split_colon ''cf:1:1g:AA'') 0 = Some ''cf''"
    "at (split_colon ''cf:1:1g:AA'') 1 = Some ''1''"
    by simp_all
  have g: "\<not> uri_grammar ''cf:1:1g:AA''"
    by (simp add: uri_grammar_def lower_hex_def in_range_def)
  from grammar_rejection [of "''cf:1:1g:AA''" example_registry] pieces g
  have "fromUri example_registry (JSString ''cf:1:1g:AA'') = Inl (ParseError ''Invalid fulfillment format'')"
    by blast
  with pieces g show ?thesis by (intro conjI)
qed

text \<open>
  C7. \<open>serializeUri()\<close> returns \<open>cf:1:\<close>, then \<open>getTypeBit().toString(16)\<close>, then a
  colon, then the URL-safe base64 encoding of \<open>serializePayload()\<close>, and throws what
  \<open>serializePayload()\<close> throws. The rendering of the type bit is its unpadded lowercase
  hexadecimal numeral; the encoding uses the URL-safe alphabet alone and can be decoded.
\<close>

theorem serializeUri_format:
  "fst (serializeUri this) =
     (case fst (serializePayload this) of
        Inl e \<Rightarrow> Inl e
      | Inr payload \<Rightarrow>
          Inr (''cf:1:'' @ toString16 (getTypeBit this) @ '':'' @ base64url_encode payload))
   \<and> renders_hex (toString16 (getTypeBit this)) (getTypeBit this)
   \<and> list_all base64url_alphabet (base64url_encode payload)
   \<and> base64url_decode (base64url_encode payload) = payload"
  by (simp add: serializeUri_eq renders_hex_toString16 base64url_encode_alphabet
      base64url_decode_encode)

theorem serializeUri_format_witness:
  "fst (serializeUri \<lparr>constructor = Preimage, props = [1, 2, 3]\<rparr>) = Inr ''cf:1:1:AwECAw''
   \<and> renders_hex ''1'' 1
   \<and> list_all base64url_alphabet ''AwECAw''
   \<and> base64url_decode ''AwECAw'' = [3, 1, 2, 3]"
proof -
  let ?f = "\<lparr>constructor = Preimage, props = [1, 2, 3]\<rparr>"
  have payload: "fst (serializePayload ?f) = Inr [3, 1, 2, 3]"
    by code_simp
  have typeBit: "getTypeBit ?f = 1" "toString16 1 = ''1''"
    by code_simp+
  have encoded: "base64url_encode [3, 1, 2, 3] = ''AwECAw''"
    by code_simp
  from serializeUri_format [of ?f "[3, 1, 2, 3]"] show ?thesis
    by (simp only: payload typeBit encoded sum.case append.simps)
qed

text \<open>
  C8. \<open>serializeBinary()\<close> is the variable-length unsigned integer encoding of
  \<open>getTypeBit()\<close> followed by the bytes that \<open>writePayload\<close> emits, that is, by
  \<open>serializePayload()\<close>, which holds the payload alone. Where \<open>writePayload\<close> throws,
  both throw what it throws.
\<close>

theorem serializeBinary_structure:
  "fst (serializeBinary this) =
     (case fst (serializePayload this) of
        Inl e \<Rightarrow> Inl e
      | Inr payload \<Rightarrow> Inr (getBuffer (Writer_writeVarUInt Writer_new (getTypeBit this)) @ payload))
   \<and> fst (serializePayload this) =
     (case fst (writePayload (constructor this) (props this)) of
        Inl e \<Rightarrow> Inl e
      | Inr calls \<Rightarrow> Inr (getBuffer (foldl Writer_call Writer_new calls)))"
  by (cases "fst (writePayload (constructor this) (props this))")
     (simp_all add: serializeBinary_eq serializePayload_eq Writer_writeVarUInt_def Writer_new_def)

theorem serializeBinary_structure_witness:
  "fst (serializeBinary \<lparr>constructor = Preimage, props = [1, 2, 3]\<rparr>) = Inr [1, 3, 1, 2, 3]
   \<and> fst (serializePayload \<lparr>constructor = Preimage, props = [1, 2, 3]\<rparr>) = Inr [3, 1, 2, 3]"
proof -
  let ?f = "\<lparr>constructor = Preimage, props = [1, 2, 3]\<rparr>"
  have payload: "fst (serializePayload ?f) = Inr [3, 1, 2, 3]"
    by code_simp
  have typeBit: "getBuffer (Writer_writeVarUInt Writer_new (getTypeBit ?f)) = [1]"
    by code_simp
  from serializeBinary_structure [of ?f] show ?thesis
    by (simp add: payload typeBit)
qed

text \<open>
  C9. Empty payloads, as amended. For every string that passes the checks of the scheme
  and the version and whose fourth piece between colons is empty, \<open>fromUri\<close> throws a
  ParseError. So for a fulfillment whose \<open>serializePayload()\<close> is no bytes,
  \<open>fromUri(serializeUri(f))\<close> throws a ParseError. As stated, for every string with an
  empty fourth piece, the claim fails: \<open>xx:1:1:\<close> is one and meets a PrefixError
  first.
\<close>

theorem empty_payload_rejected:
  "(at (split_colon s) 0 = Some ''cf'' \<and> at (split_colon s) 1 = Some ''1'' \<and>
    at (split_colon s) 3 = Some [] \<longrightarrow>
      fromUri registry (JSString s) = Inl (ParseError ''Invalid fulfillment format''))
   \<and> (fst (serializePayload this) = Inr [] \<longrightarrow>
      (\<exists>uri. fst (serializeUri this) = Inr uri \<and> at (split_colon uri) 3 = Some [] \<and>
         fromUri registry (JSString uri) = Inl (ParseError ''Invalid fulfillment format'')))"
proof (intro conjI impI)
  assume a: "at (split_colon s) 0 = Some ''cf'' \<and> at (split_colon s) 1 = Some ''1'' \<and>
    at (split_colon s) 3 = Some []"
  then have "\<not> uri_grammar s"
    by (auto simp: uri_grammar_def eval_nat_numeral split: list.splits)
  with a show "fromUri registry (JSString s) = Inl (ParseError ''Invalid fulfillment format'')"
    by (simp add: fromUri_format)
next
  assume empty: "fst (serializePayload this) = Inr []"
  let ?uri = "''cf:1:'' @ toString16 (getTypeBit this) @ '':'' @ base64url_encode []"
  have none: "base64url_encode [] = []"
    by (simp add: base64url_encode_eq_Nil)
  from empty have uri: "fst (serializeUri this) = Inr ?uri"
    by (simp add: serializeUri_eq)
  have sp: "split_colon ?uri = [''cf'', ''1'', toString16 (getTypeBit this), []]"
    using split_colon_uri [OF lower_hex_toString16, of "[]" "getTypeBit this"] none by simp
  then have pieces: "at (split_colon ?uri) 0 = Some ''cf''" "at (split_colon ?uri) 1 = Some ''1''"
    "at (split_colon ?uri) 3 = Some []"
    by (simp_all add: eval_nat_numeral)
  from sp have "\<not> uri_grammar ?uri"
    unfolding uri_grammar_def by simp
  with pieces have "fromUri registry (JSString ?uri) = Inl (ParseError ''Invalid fulfillment format'')"
    by (intro fromUri_format)
  with uri pieces(3) show "\<exists>uri. fst (serializeUri this) = Inr uri \<and> at (split_colon uri) 3 = Some [] \<and>
         fromUri registry (JSString uri) = Inl (ParseError ''Invalid fulfillment format'')"
    by blast
qed

theorem empty_payload_rejected_witness:
  "at (split_colon ''cf:1:1:'') 0 = Some ''cf'' \<and> at (split_colon ''cf:1:1:'') 1 = Some ''1''
   \<and> at (split_colon ''cf:1:1:'') 3 = Some []
   \<and> fromUri example_registry (JSString ''cf:1:1:'') = Inl (ParseError ''Invalid fulfillment format'')
   \<and> fst (serializePayload \<lparr>constructor = Nothing, props = []\<rparr>) = Inr []
   \<and> (\<exists>uri. fst (serializeUri \<lparr>constructor = Nothing, props = []\<rparr>) = Inr uri \<and>
         at (split_colon uri) 3 = Some [] \<and>
         fromUri example_registry (JSString uri) = Inl (ParseError ''Invalid fulfillment format''))"
proof -
  let ?f = "\<lparr>constructor = Nothing, props = []\<rparr>"
  have pieces: "at (split_colon ''cf:1:1:'') 0 = Some ''cf''" "at (split_colon ''cf:1:1:'') 1 = Some ''1''"
    "at (split_colon ''cf:1:1:'') 3 = Some []"
    by (simp_all add: eval_nat_numeral)
  have empty: "fst (serializePayload ?f) = Inr []"
    by code_simp
  note claim = empty_payload_rejected [of "''cf:1:1:''" example_registry ?f]
  from claim pieces have
    "fromUri example_registry (JSString ''cf:1:1:'') = Inl (ParseError ''Invalid fulfillment format'')"
    by blast
  moreover from claim empty have
    "\<exists>uri. fst (serializeUri ?f) = Inr uri \<and> at (split_colon uri) 3 = Some [] \<and>
         fromUri example_registry (JSString uri) = Inl (ParseError ''Invalid fulfillment format'')"
    by blast
  ultimately show ?thesis using pieces empty by (intro conjI)
qed

theorem empty_payload_rejected_counterexample:
  \<open>at (split_colon ''xx:1:1:'') 3 = Some []
   \<and> fromUri example_registry (JSString ''xx:1:1:'') =
        Inl (PrefixError ''Serialized fulfillment must start with "cf:"'')\<close>
proof -
  have \<open>fromUri example_registry (JSString ''xx:1:1:'') =
        Inl (PrefixError ''Serialized fulfillment must start with "cf:"'')\<close>
    by (rule fromUri_scheme) simp
  then show ?thesis by (simp add: eval_nat_numeral)
qed

text \<open>
  C10. Serialization does not change the fulfillment, as amended. Where every method of
  the class that the base class calls leaves the instance as it is (\<open>writePayload\<close>,
  \<open>generateHash\<close> and, where the class overrides them, \<open>getBitmask\<close> and
  \<open>calculateMaxFulfillmentLength\<close>), any sequence of \<open>serializeBinary()\<close>,
  \<open>serializePayload()\<close>, \<open>serializeUri()\<close>, \<open>calculateMaxFulfillmentLength()\<close> and
  \<open>getCondition()\<close> leaves it as it is. As stated, with \<open>writePayload\<close> and
  \<open>generateHash\<close> alone read-only, the claim fails: both are read-only in \<open>Masking\<close>,
  and \<open>getCondition()\<close> calls its \<open>getBitmask\<close>, which changes the instance. The class
  \<open>Counting\<close> shows that a \<open>writePayload\<close> that changes the instance is seen as well.
\<close>

theorem serialization_keeps_fulfillment:
  assumes "read_only (constructor this) (props this)"
  shows "foldl perform this operations = this"
proof (induction operations rule: rev_induct)
  case Nil
  show ?case by simp
next
  case (snoc operation operations)
  have "perform this operation = this"
    using read_only_snd [OF assms] getCondition_read_only [OF assms]
    by (cases operation) simp_all
  with snoc show ?case by simp
qed

theorem serialization_keeps_fulfillment_witness:
  "read_only Preimage [1, 2, 3]
   \<and> foldl perform \<lparr>constructor = Preimage, props = [1, 2, 3]\<rparr>
        [SerializeBinary, SerializePayload, SerializeUri, CalculateMaxFulfillmentLength, GetCondition,
         SerializeUri] =
      \<lparr>constructor = Preimage, props = [1, 2, 3]\<rparr>"
proof -
  have r: "read_only Preimage [1, 2, 3]"
    by (simp add: read_only_def keeps_def Preimage_def)
  then have "read_only (constructor \<lparr>constructor = Preimage, props = [1, 2, 3]\<rparr>)
      (props \<lparr>constructor = Preimage, props = [1, 2, 3::byte]\<rparr>)"
    by simp
  from serialization_keeps_fulfillment [OF this] have
    "foldl perform \<lparr>constructor = Preimage, props = [1, 2, 3]\<rparr>
        [SerializeBinary, SerializePayload, SerializeUri, CalculateMaxFulfillmentLength, GetCondition,
         SerializeUri] =
      \<lparr>constructor = Preimage, props = [1, 2, 3]\<rparr>" .
  with r show ?thesis by (rule conjI)
qed

theorem serialization_keeps_fulfillment_counterexample:
  "snd (writePayload Masking [1, 2, 3]) = [1, 2, 3]
   \<and> keeps (generateHash_override Masking) [1, 2, 3]
   \<and> props (perform \<lparr>constructor = Masking, props = [1, 2, 3]\<rparr> GetCondition) = [0, 1, 2, 3]
   \<and> snd (writePayload Masking [0, 1, 2, 3]) = [0, 1, 2, 3]
   \<and> keeps (generateHash_override Masking) [0, 1, 2, 3]"
proof -
  have w: "snd (writePayload Masking p) = p" for p
    by (simp add: Masking_def Preimage_def)
  have g: "keeps (generateHash_override Masking) p" for p
    by (simp add: keeps_def Masking_def Preimage_def)
  have "props (perform \<lparr>constructor = Masking, props = [1, 2, 3]\<rparr> GetCondition) = [0, 1, 2, 3]"
    by code_simp
  with w g show ?thesis by (intro conjI)
qed

lemma Counting_is_changed:
  "\<not> read_only Counting []
   \<and> props (perform \<lparr>constructor = Counting, props = []\<rparr> SerializePayload) = [0]"
  by (simp add: read_only_def Counting_def serializePayload_eq)

end
